theory Spec2Isabelle
  imports Main "HOL-Library.AList"
begin

section \<open>The unread-messages model of zulip-mobile (src/unread/unreadModel.js)\<close>

text \<open>
  The model is a reducer over persistent Immutable.js collections. Several of its
  guarantees are about object identity (\<^verbatim>\<open>===\<close>): which instance a helper returns, and
  whether a branch was pruned because it is the shared empty collection. A collection is
  therefore modelled as its contents together with the identity of the object, and every
  function that may create an object takes the next unused identity \<open>h\<close> and returns the
  updated one next to its result. Collections are never mutated once built, so an
  identity determines its contents, and \<^verbatim>\<open>===\<close> on collections is equality of the
  modelled values. Message ids are JavaScript numbers holding integers: \<open>int\<close>.

  The entries of a map are kept as an association list, one pair for each key; the order
  of the pairs stands for the iteration order of the library, on which nothing below
  depends. A function that can throw returns a sum, \<open>Inl\<close> holding the error, and the
  warnings a reducer logs are returned next to its state.
\<close>

subsection \<open>Immutable.js lists and maps\<close>

datatype 'a ilist = IList (list_id: nat) (items: "'a list")

datatype ('k, 'v) imap = IMap (map_id: nat) (entries: "('k \<times> 'v) list")

text \<open>
  \<^verbatim>\<open>Immutable.List()\<close> and \<^verbatim>\<open>Immutable.Map()\<close> return one shared empty instance each;
  identity \<open>0\<close> is reserved for them. Every operation below that ends with no element
  returns that instance, as the library does.
\<close>

definition emptyList :: "'a ilist" where
  "emptyList = IList 0 []"

definition emptyMap :: "('k, 'v) imap" where
  "emptyMap = IMap 0 []"

text \<open>A JavaScript default parameter, or \<^verbatim>\<open>x ?? d\<close>.\<close>

definition or_default :: "'a \<Rightarrow> 'a option \<Rightarrow> 'a" where
  "or_default d x = (case x of None \<Rightarrow> d | Some v \<Rightarrow> v)"

text \<open>\<^verbatim>\<open>Immutable.List(array)\<close>.\<close>

definition List_of :: "'a list \<Rightarrow> nat \<Rightarrow> 'a ilist \<times> nat" where
  "List_of xs h = (if xs = [] then (emptyList, h) else (IList h xs, Suc h))"

text \<open>\<^verbatim>\<open>list.get(i)\<close>: \<open>None\<close> is \<^verbatim>\<open>undefined\<close>, returned past the end.\<close>

definition List_get :: "'a ilist \<Rightarrow> nat \<Rightarrow> 'a option" where
  "List_get xs i = (if i < length (items xs) then Some (items xs ! i) else None)"

definition List_size :: "'a ilist \<Rightarrow> nat" where
  "List_size xs = length (items xs)"

text \<open>\<^verbatim>\<open>list.push(...values)\<close>: with no value the list itself is returned.\<close>

definition List_push :: "'a ilist \<Rightarrow> 'a list \<Rightarrow> nat \<Rightarrow> 'a ilist \<times> nat" where
  "List_push xs vs h = (if vs = [] then (xs, h) else (IList h (items xs @ vs), Suc h))"

text \<open>\<^verbatim>\<open>filter\<close>, \<^verbatim>\<open>filterNot\<close> and \<^verbatim>\<open>sort\<close> always build a new list.\<close>

definition List_filter :: "('a \<Rightarrow> bool) \<Rightarrow> 'a ilist \<Rightarrow> nat \<Rightarrow> 'a ilist \<times> nat" where
  "List_filter p xs h = List_of (filter p (items xs)) h"

definition List_filterNot :: "('a \<Rightarrow> bool) \<Rightarrow> 'a ilist \<Rightarrow> nat \<Rightarrow> 'a ilist \<times> nat" where
  "List_filterNot p xs h = List_of (filter (\<lambda>x. \<not> p x) (items xs)) h"

definition List_find :: "('a \<Rightarrow> bool) \<Rightarrow> 'a ilist \<Rightarrow> 'a option" where
  "List_find p xs = find p (items xs)"

text \<open>\<^verbatim>\<open>list.sort()\<close>: the library's default comparator orders numbers numerically.\<close>

definition List_sort :: "int ilist \<Rightarrow> nat \<Rightarrow> int ilist \<times> nat" where
  "List_sort xs h = List_of (sort (items xs)) h"

definition Map_get :: "('k, 'v) imap \<Rightarrow> 'k \<Rightarrow> 'v option" where
  "Map_get m k = map_of (entries m) k"

text \<open>
  \<^verbatim>\<open>map.withMutations(fn)\<close>: \<open>fn\<close> works on a mutable copy, which records whether a
  \<^verbatim>\<open>set\<close> or \<^verbatim>\<open>delete\<close> altered it. Unaltered, the original instance is returned;
  emptied, the shared empty map; otherwise a new map.
\<close>

type_synonym ('k, 'v) mutable_map = "('k \<times> 'v) list \<times> bool"

definition asMutable :: "('k, 'v) imap \<Rightarrow> ('k, 'v) mutable_map" where
  "asMutable m = (entries m, False)"

definition mut_get :: "('k, 'v) mutable_map \<Rightarrow> 'k \<Rightarrow> 'v option" where
  "mut_get mut k = map_of (fst mut) k"

definition mut_set :: "'k \<Rightarrow> 'v \<Rightarrow> ('k, 'v) mutable_map \<Rightarrow> ('k, 'v) mutable_map" where
  "mut_set k v mut =
     (if mut_get mut k = Some v then mut else (AList.update k v (fst mut), True))"

definition mut_delete :: "'k \<Rightarrow> ('k, 'v) mutable_map \<Rightarrow> ('k, 'v) mutable_map" where
  "mut_delete k mut =
     (if mut_get mut k = None then mut else (AList.delete k (fst mut), True))"

definition asImmutable ::
  "('k, 'v) imap \<Rightarrow> ('k, 'v) mutable_map \<Rightarrow> nat \<Rightarrow> ('k, 'v) imap \<times> nat" where
  "asImmutable original mut h =
     (if \<not> snd mut then (original, h)
      else if fst mut = [] then (emptyMap, h)
      else (IMap h (fst mut), Suc h))"

definition withMutations ::
  "('k, 'v) imap \<Rightarrow> (('k, 'v) mutable_map \<times> nat \<Rightarrow> ('k, 'v) mutable_map \<times> nat) \<Rightarrow> nat
    \<Rightarrow> ('k, 'v) imap \<times> nat" where
  "withMutations m fn h = (case fn (asMutable m, h) of (mut, h1) \<Rightarrow> asImmutable m mut h1)"

text \<open>\<^verbatim>\<open>map.forEach((value, key) => ...)\<close>, the callback threading a state.\<close>

definition forEach :: "('k, 'v) imap \<Rightarrow> ('v \<Rightarrow> 'k \<Rightarrow> 's \<Rightarrow> 's) \<Rightarrow> 's \<Rightarrow> 's" where
  "forEach m f s = fold (\<lambda>(key, value). f value key) (entries m) s"

definition Map_set :: "('k, 'v) imap \<Rightarrow> 'k \<Rightarrow> 'v \<Rightarrow> nat \<Rightarrow> ('k, 'v) imap \<times> nat" where
  "Map_set m k v h = withMutations m (\<lambda>(mut, h1). (mut_set k v mut, h1)) h"

definition Map_delete :: "('k, 'v) imap \<Rightarrow> 'k \<Rightarrow> nat \<Rightarrow> ('k, 'v) imap \<times> nat" where
  "Map_delete m k h = withMutations m (\<lambda>(mut, h1). (mut_delete k mut, h1)) h"

text \<open>\<^verbatim>\<open>Immutable.Map(pairs)\<close>: the pairs are set one by one into the empty map.\<close>

definition Map_of :: "('k \<times> 'v) list \<Rightarrow> nat \<Rightarrow> ('k, 'v) imap \<times> nat" where
  "Map_of pairs h =
     withMutations emptyMap (\<lambda>(mut, h1). (fold (\<lambda>(k, v). mut_set k v) pairs mut, h1)) h"

text \<open>\<^verbatim>\<open>Seq.Keyed(entries).map(f)\<close>: \<open>f\<close> applied to each value, in order.\<close>

primrec Seq_map ::
  "('a \<Rightarrow> nat \<Rightarrow> 'b \<times> nat) \<Rightarrow> ('k \<times> 'a) list \<Rightarrow> nat \<Rightarrow> ('k \<times> 'b) list \<times> nat" where
  "Seq_map f [] h = ([], h)"
| "Seq_map f (e # es) h =
     (case f (snd e) h of (v, h1) \<Rightarrow>
        (case Seq_map f es h1 of (es', h2) \<Rightarrow> ((fst e, v) # es', h2)))"

text \<open>\<^verbatim>\<open>map.map(f)\<close>: a map built anew from the mapped entries.\<close>

definition Map_map ::
  "('a \<Rightarrow> nat \<Rightarrow> 'b \<times> nat) \<Rightarrow> ('k, 'a) imap \<Rightarrow> nat \<Rightarrow> ('k, 'b) imap \<times> nat" where
  "Map_map f m h = (case Seq_map f (entries m) h of (es, h1) \<Rightarrow> Map_of es h1)"

text \<open>
  \<^verbatim>\<open>map.mergeWith(merger, other)\<close>: nothing to merge returns the map itself; merging into
  an empty map returns \<open>other\<close>; otherwise each entry of \<open>other\<close> is set, through
  \<open>merger\<close> where the key is already there.
\<close>

definition mergeWith ::
  "('v \<Rightarrow> 'v \<Rightarrow> nat \<Rightarrow> 'v \<times> nat) \<Rightarrow> ('k, 'v) imap \<Rightarrow> ('k, 'v) imap \<Rightarrow> nat
    \<Rightarrow> ('k, 'v) imap \<times> nat" where
  "mergeWith merger m other h =
     (if entries other = [] then (m, h)
      else if entries m = [] then (other, h)
      else withMutations m
        (forEach other (\<lambda>value key (mut, h1).
           (case mut_get mut key of
              None \<Rightarrow> (mut_set key value mut, h1)
            | Some oldVal \<Rightarrow>
                (case merger oldVal value h1 of (v, h2) \<Rightarrow> (mut_set key v mut, h2))))) h)"

text \<open>
  \<^verbatim>\<open>map.getIn([k1, k2], notSetValue)\<close> and \<^verbatim>\<open>map.updateIn([k1, k2], updater)\<close> on a map
  of maps. \<open>updater\<close> gets \<open>None\<close> (\<^verbatim>\<open>undefined\<close>) where the path is not set; a missing
  inner map starts as the empty map.
\<close>

definition getIn :: "('a, ('b, 'v) imap) imap \<Rightarrow> 'a \<times> 'b \<Rightarrow> 'v \<Rightarrow> 'v" where
  "getIn m path notSetValue =
     (case Map_get m (fst path) of
        None \<Rightarrow> notSetValue
      | Some inner \<Rightarrow> or_default notSetValue (Map_get inner (snd path)))"

definition updateIn ::
  "('a, ('b, 'v) imap) imap \<Rightarrow> 'a \<times> 'b \<Rightarrow> ('v option \<Rightarrow> nat \<Rightarrow> 'v \<times> nat) \<Rightarrow> nat
    \<Rightarrow> ('a, ('b, 'v) imap) imap \<times> nat" where
  "updateIn m path updater h =
     (let inner = or_default emptyMap (Map_get m (fst path)) in
      case updater (Map_get inner (snd path)) h of (newValue, h1) \<Rightarrow>
        (case Map_set inner (snd path) newValue h1 of (inner', h2) \<Rightarrow>
           Map_set m (fst path) inner' h2))"

subsection \<open>The update helpers\<close>

text \<open>
  \<^verbatim>\<open>updateAndPrune(map, zero, key, updater)\<close>. The updater receives \<open>None\<close> for an
  absent key (\<^verbatim>\<open>map.get\<close> returns \<^verbatim>\<open>undefined\<close>).
\<close>

definition updateAndPrune ::
  "('k, 'v) imap \<Rightarrow> 'v \<Rightarrow> 'k \<Rightarrow> ('v option \<Rightarrow> nat \<Rightarrow> 'v \<times> nat) \<Rightarrow> nat
    \<Rightarrow> ('k, 'v) imap \<times> nat" where
  "updateAndPrune m zero key updater h =
     (let value = Map_get m key in
      case updater value h of (newValue, h1) \<Rightarrow>
        if newValue = zero then Map_delete m key h1
        else if Some newValue = value then (m, h1)
        else Map_set m key newValue h1)"

definition updateAllAndPrune ::
  "('k, 'v) imap \<Rightarrow> 'v \<Rightarrow> ('v \<Rightarrow> nat \<Rightarrow> 'v \<times> nat) \<Rightarrow> nat \<Rightarrow> ('k, 'v) imap \<times> nat" where
  "updateAllAndPrune m zero updater h =
     withMutations m
       (forEach m (\<lambda>value key (mapMut, h1).
          (case updater value h1 of (newValue, h2) \<Rightarrow>
             if newValue = zero then (mut_delete key mapMut, h2)
             else if newValue = value then (mapMut, h2)
             else (mut_set key newValue mapMut, h2)))) h"

subsection \<open>Union of sorted id lists\<close>

text \<open>
  \<^verbatim>\<open>setUnion(xs, ys)\<close> reads both lists by index. The first loop runs while both cursors
  hold an element; the two loops after it drain what is left of \<open>xs\<close>, then of \<open>ys\<close>.
  \<open>x\<close> and \<open>y\<close> are the elements last read, \<open>i\<close> and \<open>j\<close> the next indices.
\<close>

function setUnion_both ::
  "int ilist \<Rightarrow> int ilist \<Rightarrow> nat \<Rightarrow> int option \<Rightarrow> nat \<Rightarrow> int option \<Rightarrow> int list
    \<Rightarrow> nat \<times> int option \<times> nat \<times> int option \<times> int list" where
  "setUnion_both xs ys i None j y result = (i, None, j, y, result)"
| "setUnion_both xs ys i (Some x) j None result = (i, Some x, j, None, result)"
| "setUnion_both xs ys i (Some x) j (Some y) result =
     (if x < y then setUnion_both xs ys (Suc i) (List_get xs i) j (Some y) (result @ [x])
      else if x \<noteq> y then
        setUnion_both xs ys i (Some x) (Suc j) (List_get ys j) (result @ [y])
      else setUnion_both xs ys (Suc i) (List_get xs i) (Suc j) (List_get ys j) (result @ [x]))"
  by pat_completeness auto
termination
  by (relation "measure (\<lambda>(xs, ys, i, x, j, y, result).
        (case x of None \<Rightarrow> 0 | Some _ \<Rightarrow> Suc (length (items xs) - i)) +
        (case y of None \<Rightarrow> 0 | Some _ \<Rightarrow> Suc (length (items ys) - j)))")
     (auto simp: List_get_def)

function setUnion_rest :: "int ilist \<Rightarrow> nat \<Rightarrow> int option \<Rightarrow> int list \<Rightarrow> int list" where
  "setUnion_rest xs i None result = result"
| "setUnion_rest xs i (Some x) result =
     setUnion_rest xs (Suc i) (List_get xs i) (result @ [x])"
  by pat_completeness auto
termination
  by (relation "measure (\<lambda>(xs, i, x, result).
        (case x of None \<Rightarrow> 0 | Some _ \<Rightarrow> Suc (length (items xs) - i)))")
     (auto simp: List_get_def)

definition setUnion :: "int ilist \<Rightarrow> int ilist \<Rightarrow> nat \<Rightarrow> int ilist \<times> nat" where
  "setUnion xs ys h =
     (case setUnion_both xs ys (Suc 0) (List_get xs 0) (Suc 0) (List_get ys 0) [] of
        (i, x, j, y, result) \<Rightarrow>
          List_of (setUnion_rest ys j y (setUnion_rest xs i x result)) h)"

text \<open>
  The two-pointer merge on plain lists that \<open>setUnion\<close> is compared with: the smaller
  head goes first and a tie is emitted once.
\<close>

fun sorted_union :: "int list \<Rightarrow> int list \<Rightarrow> int list" where
  "sorted_union [] ys = ys"
| "sorted_union xs [] = xs"
| "sorted_union (x # xs) (y # ys) =
     (if x < y then x # sorted_union xs (y # ys)
      else if x \<noteq> y then y # sorted_union (x # xs) ys
      else x # sorted_union xs ys)"

subsection \<open>The stream index and its actions\<close>

type_synonym UnreadStreamsState = "(int, (string, int ilist) imap) imap"

definition initialStreamsState :: UnreadStreamsState where
  "initialStreamsState = emptyMap"

text \<open>The unread ids stored for a stream and topic, if the index has the entry.\<close>

definition unreadIds :: "UnreadStreamsState \<Rightarrow> int \<Rightarrow> string \<Rightarrow> int list option" where
  "unreadIds state streamId topic =
     (case Map_get state streamId of
        None \<Rightarrow> None
      | Some perStream \<Rightarrow> map_option items (Map_get perStream topic))"

text \<open>
  An entry of \<^verbatim>\<open>unread_msgs.streams\<close> in the registration payload, with its fields
  \<^verbatim>\<open>stream_id\<close>, \<^verbatim>\<open>topic\<close> and \<^verbatim>\<open>unread_message_ids\<close>.
\<close>

record unread_stream =
  us_stream_id :: int
  us_topic :: string
  us_unread_message_ids :: "int list"

text \<open>A message of a new-message event; \<open>msg_flags\<close> is \<open>None\<close> when absent.\<close>

record message =
  msg_type :: string
  msg_stream_id :: int
  msg_subject :: string
  msg_id :: int
  msg_flags :: "string list option"

record message_detail =
  md_type :: string
  md_stream_id :: int
  md_topic :: string

record move =
  orig_stream_id :: int
  orig_topic :: string
  new_stream_id :: int
  new_topic :: string

text \<open>
  The actions the reducer distinguishes, with the fields it reads:
  \<^verbatim>\<open>action.data.unread_msgs?.streams\<close>; \<^verbatim>\<open>action.message\<close>; \<^verbatim>\<open>action.messageIds\<close>;
  \<^verbatim>\<open>flag\<close>, \<^verbatim>\<open>all\<close>, \<^verbatim>\<open>op\<close>, \<^verbatim>\<open>messages\<close>, \<^verbatim>\<open>message_details\<close>;
  \<^verbatim>\<open>event.message_ids\<close> and \<^verbatim>\<open>move\<close>. Every other action type is \<open>OTHER_ACTION\<close>.
\<close>

datatype action =
    RESET_ACCOUNT_DATA
  | REGISTER_COMPLETE "unread_stream list option"
  | MESSAGE_FETCH_COMPLETE
  | EVENT_NEW_MESSAGE message
  | EVENT_MESSAGE_DELETE "int list"
  | EVENT_UPDATE_MESSAGE_FLAGS string bool string "int list"
      "(int \<times> message_detail) list option"
  | EVENT_UPDATE_MESSAGE "int list" "move option"
  | OTHER_ACTION

datatype error = InvariantViolation string

definition deleteMessagesIn ::
  "UnreadStreamsState \<Rightarrow> int \<Rightarrow> string \<Rightarrow> int list \<Rightarrow> nat \<Rightarrow> UnreadStreamsState \<times> nat" where
  "deleteMessagesIn state streamId topic ids h =
     updateAndPrune state emptyMap streamId (\<lambda>perStream.
       updateAndPrune (or_default emptyMap perStream) emptyList topic (\<lambda>perTopic.
         List_filter (\<lambda>id. id \<notin> set ids) (or_default emptyList perTopic))) h"

text \<open>
  In \<open>deleteMessages\<close> the test \<^verbatim>\<open>perTopic.find(toDelete) ? ... : ...\<close> is on the element
  found: \<^verbatim>\<open>undefined\<close> and \<open>0\<close> are falsy.
\<close>

definition truthy :: "int option \<Rightarrow> bool" where
  "truthy x = (case x of None \<Rightarrow> False | Some v \<Rightarrow> v \<noteq> 0)"

definition deleteMessages ::
  "UnreadStreamsState \<Rightarrow> int list \<Rightarrow> nat \<Rightarrow> UnreadStreamsState \<times> nat" where
  "deleteMessages state ids h =
     (let toDelete = (\<lambda>id. id \<in> set ids) in
      updateAllAndPrune state emptyMap (\<lambda>perStream.
        updateAllAndPrune perStream emptyList (\<lambda>perTopic h1.
          if truthy (List_find toDelete perTopic) then List_filterNot toDelete perTopic h1
          else (perTopic, h1))) h)"

text \<open>
  Modelled from the spec: \<^verbatim>\<open>DefaultMap\<close> (src/utils/DefaultMap.js), "an explicit mapping
  with an explicit get-or-insert-default operation", kept in insertion order.
  \<open>getOrCreate\<close> returns the value stored for the key, after storing the default for a
  key that has none.
\<close>

definition getOrCreate :: "('k \<times> 'v) list \<Rightarrow> 'v \<Rightarrow> 'k \<Rightarrow> ('k \<times> 'v) list \<times> 'v" where
  "getOrCreate dm dflt key =
     (case map_of dm key of
        Some v \<Rightarrow> (dm, v)
      | None \<Rightarrow> (dm @ [(key, dflt)], dflt))"

text \<open>
  The first loop of the \<^verbatim>\<open>REGISTER_COMPLETE\<close> case: the pair of topic and id list is
  pushed onto the array that \<open>byStream\<close> holds for the stream.
\<close>

definition collectByStream ::
  "unread_stream list \<Rightarrow> nat \<Rightarrow> (int \<times> (string \<times> int ilist) list) list \<times> nat" where
  "collectByStream data h =
     fold (\<lambda>e (byStream, h1).
        (case getOrCreate byStream [] (us_stream_id e) of (byStream1, array) \<Rightarrow>
           (case List_of (us_unread_message_ids e) h1 of (ids, h2) \<Rightarrow>
              (AList.update (us_stream_id e) (array @ [(us_topic e, ids)]) byStream1, h2))))
       data ([], h)"

text \<open>
  The loop of the \<^verbatim>\<open>remove\<close> branch: ids whose detail is missing or not of a stream
  message are passed over.
\<close>

definition collectNewlyUnread ::
  "(int \<times> message_detail) list \<Rightarrow> int list \<Rightarrow> nat \<Rightarrow> UnreadStreamsState \<times> nat" where
  "collectNewlyUnread message_details messages h =
     fold (\<lambda>id (newlyUnreadState, h1).
        (case map_of message_details id of
           None \<Rightarrow> (newlyUnreadState, h1)
         | Some message \<Rightarrow>
             if md_type message = ''stream'' then
               updateIn newlyUnreadState (md_stream_id message, md_topic message)
                 (\<lambda>messages. List_push (or_default emptyList messages) [id]) h1
             else (newlyUnreadState, h1)))
       messages (emptyMap, h)"

text \<open>
  \<open>streamsReducer\<close> returns the error of a failed \<^verbatim>\<open>invariant\<close>, or the next state with
  the warnings logged and the next unused identity. Its third parameter
  \<^verbatim>\<open>globalState\<close> is never read and is left out.
\<close>

definition streamsReducer ::
  "UnreadStreamsState option \<Rightarrow> action \<Rightarrow> nat
    \<Rightarrow> error + (UnreadStreamsState \<times> string list \<times> nat)" where
  "streamsReducer state0 action h =
     (let state = or_default initialStreamsState state0 in
      case action of
        RESET_ACCOUNT_DATA \<Rightarrow> Inr (initialStreamsState, [], h)
      | REGISTER_COMPLETE streams \<Rightarrow>
          (let data = or_default [] streams in
           case collectByStream data h of (byStream, h1) \<Rightarrow>
             (case Seq_map Map_of byStream h1 of (perStreams, h2) \<Rightarrow>
                (case Map_of perStreams h2 of (state', h3) \<Rightarrow> Inr (state', [], h3))))
      | MESSAGE_FETCH_COMPLETE \<Rightarrow> Inr (state, [], h)
      | EVENT_NEW_MESSAGE message \<Rightarrow>
          if msg_type message \<noteq> ''stream'' then Inr (state, [], h)
          else (case msg_flags message of
             None \<Rightarrow> Inl (InvariantViolation ''message in EVENT_NEW_MESSAGE must have flags'')
           | Some flags \<Rightarrow>
               if ''read'' \<in> set flags then Inr (state, [], h)
               else (case updateIn state (msg_stream_id message, msg_subject message)
                            (\<lambda>perTopic. List_push (or_default emptyList perTopic)
                               [msg_id message]) h of
                       (state', h1) \<Rightarrow> Inr (state', [], h1)))
      | EVENT_MESSAGE_DELETE messageIds \<Rightarrow>
          (case deleteMessages state messageIds h of (state', h1) \<Rightarrow> Inr (state', [], h1))
      | EVENT_UPDATE_MESSAGE_FLAGS flag all op messages message_details \<Rightarrow>
          if flag \<noteq> ''read'' then Inr (state, [], h)
          else if all then Inr (initialStreamsState, [], h)
          else if op = ''remove'' then
            (case message_details of
               None \<Rightarrow>
                 Inr (state,
                   [''Got update_message_flags/remove/read event without message_details.''],
                   h)
             | Some details \<Rightarrow>
                 (case collectNewlyUnread details messages h of (newlyUnreadState, h1) \<Rightarrow>
                    (case Map_map (Map_map List_sort) newlyUnreadState h1 of
                       (newlyUnreadState', h2) \<Rightarrow>
                         (case mergeWith (mergeWith setUnion) state newlyUnreadState' h2 of
                            (state', h3) \<Rightarrow> Inr (state', [], h3)))))
          else (case deleteMessages state messages h of
                  (state', h1) \<Rightarrow> Inr (state', [], h1))
      | EVENT_UPDATE_MESSAGE message_ids move \<Rightarrow>
          (case move of
             None \<Rightarrow> Inr (state, [], h)
           | Some mv \<Rightarrow>
               (case List_filter (\<lambda>id. id \<in> set message_ids)
                       (getIn state (orig_stream_id mv, orig_topic mv) emptyList) h of
                  (matchingIds, h1) \<Rightarrow>
                    if List_size matchingIds = 0 then Inr (state, [], h1)
                    else
                      (case deleteMessagesIn state (orig_stream_id mv) (orig_topic mv)
                              message_ids h1 of
                         (state1, h2) \<Rightarrow>
                           (case updateIn state1 (new_stream_id mv, new_topic mv)
                                   (\<lambda>messages h3.
                                      case List_push (or_default emptyList messages)
                                             (items matchingIds) h3 of
                                        (pushed, h4) \<Rightarrow> List_sort pushed h4) h2 of
                              (state', h5) \<Rightarrow> Inr (state', [], h5)))))
      | OTHER_ACTION \<Rightarrow> Inr (state, [], h))"

subsection \<open>The aggregate reducer\<close>

text \<open>
  The aggregate is an object with the four sub-states as fields; \<open>state_id\<close> is the
  identity of the object. The reducers of the private-message, huddle and mention states
  are in other files: they are parameters here, each returning an error or its next
  state with the next unused identity, and their states are of any type whose equality
  is \<^verbatim>\<open>===\<close>.
\<close>

record ('p, 'u, 'm) UnreadState =
  state_id :: nat
  streams :: UnreadStreamsState
  pms :: 'p
  huddles :: 'u
  mentions :: 'm

definition reducer ::
  "('p option \<Rightarrow> action \<Rightarrow> 'g \<Rightarrow> nat \<Rightarrow> error + ('p \<times> nat)) \<Rightarrow>
   ('u option \<Rightarrow> action \<Rightarrow> 'g \<Rightarrow> nat \<Rightarrow> error + ('u \<times> nat)) \<Rightarrow>
   ('m option \<Rightarrow> action \<Rightarrow> nat \<Rightarrow> error + ('m \<times> nat)) \<Rightarrow>
   ('p, 'u, 'm) UnreadState option \<Rightarrow> action \<Rightarrow> 'g \<Rightarrow> nat
    \<Rightarrow> error + (('p, 'u, 'm) UnreadState \<times> string list \<times> nat)" where
  "reducer unreadPmsReducer unreadHuddlesReducer unreadMentionsReducer
       state action globalState h =
     (case streamsReducer (map_option streams state) action h of
        Inl e \<Rightarrow> Inl e
      | Inr (nextStreams, warnings, h1) \<Rightarrow>
     (case unreadPmsReducer (map_option pms state) action globalState h1 of
        Inl e \<Rightarrow> Inl e
      | Inr (nextPms, h2) \<Rightarrow>
     (case unreadHuddlesReducer (map_option huddles state) action globalState h2 of
        Inl e \<Rightarrow> Inl e
      | Inr (nextHuddles, h3) \<Rightarrow>
     (case unreadMentionsReducer (map_option mentions state) action h3 of
        Inl e \<Rightarrow> Inl e
      | Inr (nextMentions, h4) \<Rightarrow>
          (let nextState = \<lparr>state_id = h4, streams = nextStreams, pms = nextPms,
                            huddles = nextHuddles, mentions = nextMentions\<rparr> in
           case state of
             None \<Rightarrow> Inr (nextState, warnings, Suc h4)
           | Some prev \<Rightarrow>
               if nextStreams = streams prev \<and> nextPms = pms prev \<and>
                  nextHuddles = huddles prev \<and> nextMentions = mentions prev
               then Inr (prev, warnings, Suc h4)
               else Inr (nextState, warnings, Suc h4))))))"

subsection \<open>Invariants of the stream index and reachable states\<close>

definition all_values :: "('v \<Rightarrow> bool) \<Rightarrow> ('k, 'v) imap \<Rightarrow> bool" where
  "all_values P m = list_all (\<lambda>e. P (snd e)) (entries m)"

text \<open>Every id list of the index is strictly ascending, hence free of duplicates.\<close>

definition ascendingTopics :: "(string, int ilist) imap \<Rightarrow> bool" where
  "ascendingTopics perStream =
     all_values (\<lambda>ids. sorted_wrt (<) (items ids) \<and> distinct (items ids)) perStream"

definition strictlyAscending :: "UnreadStreamsState \<Rightarrow> bool" where
  "strictlyAscending state = all_values ascendingTopics state"

text \<open>No stream holds an empty topic map and no topic an empty id list.\<close>

definition nonEmptyTopics :: "(string, int ilist) imap \<Rightarrow> bool" where
  "nonEmptyTopics perStream =
     (entries perStream \<noteq> [] \<and> all_values (\<lambda>ids. items ids \<noteq> []) perStream)"

definition noEmptyBranch :: "UnreadStreamsState \<Rightarrow> bool" where
  "noEmptyBranch state = all_values nonEmptyTopics state"

definition allIds :: "UnreadStreamsState \<Rightarrow> int list" where
  "allIds state =
     concat (map (\<lambda>s. concat (map (\<lambda>t. items (snd t)) (entries (snd s)))) (entries state))"

text \<open>
  \<open>applyActions pre state h actions\<close> applies the actions in order, each one admitted by
  \<open>pre\<close> in the state it meets; \<open>None\<close> when an action is not admitted or the reducer
  fails. The states reachable under \<open>pre\<close> are its results from the empty index.
\<close>

fun applyActions ::
  "(UnreadStreamsState \<Rightarrow> action \<Rightarrow> bool) \<Rightarrow> UnreadStreamsState \<Rightarrow> nat \<Rightarrow> action list
    \<Rightarrow> (UnreadStreamsState \<times> nat) option" where
  "applyActions pre state h [] = Some (state, h)"
| "applyActions pre state h (a # as) =
     (if pre state a then
        (case streamsReducer (Some state) a h of
           Inl e \<Rightarrow> None
         | Inr (state', warnings, h') \<Rightarrow> applyActions pre state' h' as)
      else None)"

text \<open>
  The preconditions the event table states: the id lists of a registration snapshot are
  ascending, and the id of a new message exceeds every id in the index.
\<close>

definition statedPrecondition :: "UnreadStreamsState \<Rightarrow> action \<Rightarrow> bool" where
  "statedPrecondition state action =
     (case action of
        REGISTER_COMPLETE snapshot \<Rightarrow>
          list_all (\<lambda>e. sorted_wrt (<) (us_unread_message_ids e)) (or_default [] snapshot)
      | EVENT_NEW_MESSAGE message \<Rightarrow> list_all (\<lambda>id. id < msg_id message) (allIds state)
      | _ \<Rightarrow> True)"

text \<open>
  What sortedness needs beyond them: the ids of a flags event are pairwise distinct, and
  a move brings no id to a destination list that already holds it.
\<close>

definition noRepeatedIds :: "UnreadStreamsState \<Rightarrow> action \<Rightarrow> bool" where
  "noRepeatedIds state action =
     (case action of
        EVENT_UPDATE_MESSAGE_FLAGS flag all op messages message_details \<Rightarrow> distinct messages
      | EVENT_UPDATE_MESSAGE message_ids move \<Rightarrow>
          (case move of
             None \<Rightarrow> True
           | Some mv \<Rightarrow>
               (orig_stream_id mv = new_stream_id mv \<and> orig_topic mv = new_topic mv) \<or>
               list_all
                 (\<lambda>id. id \<notin> set (items (getIn state (new_stream_id mv, new_topic mv)
                                           emptyList)))
                 (filter (\<lambda>id. id \<in> set message_ids)
                    (items (getIn state (orig_stream_id mv, orig_topic mv) emptyList))))
      | _ \<Rightarrow> True)"

definition sortednessPrecondition :: "UnreadStreamsState \<Rightarrow> action \<Rightarrow> bool" where
  "sortednessPrecondition state action =
     (statedPrecondition state action \<and> noRepeatedIds state action)"

text \<open>A registration snapshot none of whose id lists is empty.\<close>

definition nonEmptySnapshot :: "UnreadStreamsState \<Rightarrow> action \<Rightarrow> bool" where
  "nonEmptySnapshot state action =
     (case action of
        REGISTER_COMPLETE snapshot \<Rightarrow>
          list_all (\<lambda>e. us_unread_message_ids e \<noteq> []) (or_default [] snapshot)
      | _ \<Rightarrow> True)"

definition anyAction :: "UnreadStreamsState \<Rightarrow> action \<Rightarrow> bool" where
  "anyAction state action = True"

text \<open>
  The ids of a flags event that \<open>message_details\<close> routes to the given stream and topic,
  in the order of the event.
\<close>

definition groupOf ::
  "(int \<times> message_detail) list \<Rightarrow> int list \<Rightarrow> int \<Rightarrow> string \<Rightarrow> int list" where
  "groupOf message_details messages streamId topic =
     filter (\<lambda>id. case map_of message_details id of
                     None \<Rightarrow> False
                   | Some d \<Rightarrow> md_type d = ''stream'' \<and> md_stream_id d = streamId \<and>
                       md_topic d = topic) messages"

section \<open>Properties\<close>

subsection \<open>\<open>setUnion\<close> is the sorted union\<close>

lemma items_List_of [simp]: "items (fst (List_of xs h)) = xs"
  by (simp add: List_of_def emptyList_def)

lemma sorted_union_Nil2 [simp]: "sorted_union xs [] = xs"
  by (cases xs) simp_all

lemma set_sorted_union [simp]: "set (sorted_union xs ys) = set xs \<union> set ys"
  by (induction xs ys rule: sorted_union.induct) auto

lemma sorted_union_strict:
  "sorted_wrt (<) xs \<Longrightarrow> sorted_wrt (<) ys \<Longrightarrow> sorted_wrt (<) (sorted_union xs ys)"
  by (induction xs ys rule: sorted_union.induct) auto

lemma sorted_union_same [simp]: "sorted_union xs xs = xs"
  by (induction xs) simp_all

lemma setUnion_rest_drop:
  "setUnion_rest xs (Suc k) (List_get xs k) result = result @ drop k (items xs)"
proof (induction "length (items xs) - k" arbitrary: k result)
  case 0
  then show ?case by (simp add: List_get_def)
next
  case (Suc n)
  then have k: "k < length (items xs)" by simp
  from Suc have "n = length (items xs) - Suc k" by simp
  from Suc.hyps(1) [OF this]
  have "setUnion_rest xs (Suc (Suc k)) (List_get xs (Suc k)) (result @ [items xs ! k]) =
        (result @ [items xs ! k]) @ drop (Suc k) (items xs)" .
  with k show ?case by (simp add: List_get_def Cons_nth_drop_Suc)
qed

lemma setUnion_both_merge:
  "(case setUnion_both xs ys (Suc k) (List_get xs k) (Suc l) (List_get ys l) result of
      (i, x, j, y, result') \<Rightarrow> setUnion_rest ys j y (setUnion_rest xs i x result')) =
   result @ sorted_union (drop k (items xs)) (drop l (items ys))"
proof (induction "(length (items xs) - k) + (length (items ys) - l)"
    arbitrary: k l result rule: less_induct)
  case less
  show ?case
  proof (cases "k < length (items xs)")
    case False
    then have "List_get xs k = None" by (simp add: List_get_def)
    with False show ?thesis by (simp add: setUnion_rest_drop)
  next
    case kx: True
    then have gx: "List_get xs k = Some (items xs ! k)" by (simp add: List_get_def)
    have dx: "drop k (items xs) = items xs ! k # drop (Suc k) (items xs)"
      using kx by (simp add: Cons_nth_drop_Suc)
    show ?thesis
    proof (cases "l < length (items ys)")
      case False
      then have gy: "List_get ys l = None" by (simp add: List_get_def)
      have "setUnion_rest xs (Suc k) (List_get xs k) result = result @ drop k (items xs)"
        by (rule setUnion_rest_drop)
      with gx gy False show ?thesis by simp
    next
      case ly: True
      then have gy: "List_get ys l = Some (items ys ! l)" by (simp add: List_get_def)
      have dy: "drop l (items ys) = items ys ! l # drop (Suc l) (items ys)"
        using ly by (simp add: Cons_nth_drop_Suc)
      let ?x = "items xs ! k" and ?y = "items ys ! l"
      consider (lt) "?x < ?y" | (gt) "?y < ?x" | (eq) "?x = ?y" by linarith
      then show ?thesis
      proof cases
        case lt
        have "(length (items xs) - Suc k) + (length (items ys) - l) <
              (length (items xs) - k) + (length (items ys) - l)" using kx by simp
        from less [OF this, of "result @ [?x]"] lt show ?thesis
          by (simp add: gx gy dx [symmetric] dy [symmetric]) (simp add: dx dy)
      next
        case gt
        have "(length (items xs) - k) + (length (items ys) - Suc l) <
              (length (items xs) - k) + (length (items ys) - l)" using ly by simp
        from less [OF this, of "result @ [?y]"] gt show ?thesis
          by (simp add: gx gy dx [symmetric] dy [symmetric]) (simp add: dx dy)
      next
        case eq
        have "(length (items xs) - Suc k) + (length (items ys) - Suc l) <
              (length (items xs) - k) + (length (items ys) - l)" using kx ly by simp
        from less [OF this, of "result @ [?x]"] eq show ?thesis
          by (simp add: gx gy dx dy)
      qed
    qed
  qed
qed

lemma items_setUnion: "items (fst (setUnion xs ys h)) = sorted_union (items xs) (items ys)"
proof -
  have "items (fst (setUnion xs ys h)) =
        (case setUnion_both xs ys (Suc 0) (List_get xs 0) (Suc 0) (List_get ys 0) [] of
           (i, x, j, y, result') \<Rightarrow> setUnion_rest ys j y (setUnion_rest xs i x result'))"
    by (simp add: setUnion_def split: prod.splits)
  also have "\<dots> = [] @ sorted_union (drop 0 (items xs)) (drop 0 (items ys))"
    by (rule setUnion_both_merge)
  finally show ?thesis by simp
qed

text \<open>
  Claim C2. For strictly ascending (hence duplicate-free) id lists \<open>A\<close> and \<open>B\<close>,
  \<open>setUnion A B\<close> is strictly ascending and duplicate-free and holds exactly the ids of
  \<open>A\<close> and of \<open>B\<close>; \<open>setUnion A A\<close> and \<open>setUnion A []\<close> hold the ids of \<open>A\<close> in its
  order; and \<open>setUnion A B\<close> and \<open>setUnion B A\<close> hold the same ids.
\<close>

theorem setUnion_sorted_set_union:
  assumes "sorted_wrt (<) (items A)" and "sorted_wrt (<) (items B)"
  shows "sorted_wrt (<) (items (fst (setUnion A B h))) \<and>
         distinct (items (fst (setUnion A B h))) \<and>
         set (items (fst (setUnion A B h))) = set (items A) \<union> set (items B) \<and>
         items (fst (setUnion A A h)) = items A \<and>
         items (fst (setUnion A emptyList h)) = items A \<and>
         set (items (fst (setUnion A B h))) = set (items (fst (setUnion B A h)))"
proof -
  have s: "sorted_wrt (<) (sorted_union (items A) (items B))"
    using assms by (rule sorted_union_strict)
  then have "distinct (sorted_union (items A) (items B))"
    by (simp add: strict_sorted_iff)
  with s show ?thesis
    by (auto simp: items_setUnion emptyList_def)
qed

theorem setUnion_sorted_set_union_witness:
  "sorted_wrt (<) (items (IList 5 [1, 3, 5 :: int])) \<and>
   sorted_wrt (<) (items (IList 6 [2, 3, 8, 9 :: int])) \<and>
   fst (setUnion (IList 5 [1, 3, 5]) (IList 6 [2, 3, 8, 9]) 7) = IList 7 [1, 2, 3, 5, 8, 9] \<and>
   sorted_wrt (<) (items (fst (setUnion (IList 5 [1, 3, 5]) (IList 6 [2, 3, 8, 9]) 7))) \<and>
   set (items (fst (setUnion (IList 5 [1, 3, 5]) (IList 6 [2, 3, 8, 9]) 7))) =
     set [1, 3, 5] \<union> set [2, 3, 8, 9]"
proof -
  have a: "sorted_wrt (<) (items (IList 5 [1, 3, 5 :: int]))" by simp
  have b: "sorted_wrt (<) (items (IList 6 [2, 3, 8, 9 :: int]))" by simp
  have c: "fst (setUnion (IList 5 [1, 3, 5]) (IList 6 [2, 3, 8, 9]) 7) =
           IList 7 [1, 2, 3, 5, 8, 9]"
    by (simp add: setUnion_def List_get_def List_of_def)
  from setUnion_sorted_set_union [OF a b, of 7] a b c show ?thesis by simp
qed

subsection \<open>Facts about the collection operations\<close>

lemma all_values_iff: "all_values P m \<longleftrightarrow> (\<forall>e\<in>set (entries m). P (snd e))"
  by (simp add: all_values_def list_all_iff)

lemma all_values_emptyMap [simp]: "all_values P emptyMap"
  by (simp add: all_values_def emptyMap_def)

lemma Map_get_emptyMap [simp]: "Map_get emptyMap k = None"
  by (simp add: Map_get_def emptyMap_def)

lemma entries_emptyMap [simp]: "entries emptyMap = []"
  by (simp add: emptyMap_def)

lemma items_emptyList [simp]: "items emptyList = []"
  by (simp add: emptyList_def)

lemma Map_get_value: "Map_get m k = Some v \<Longrightarrow> all_values P m \<Longrightarrow> P v"
  by (auto simp: Map_get_def all_values_iff dest!: map_of_SomeD)

lemma Map_get_entries_nonempty: "Map_get m k = Some v \<Longrightarrow> entries m \<noteq> []"
  by (auto simp: Map_get_def)

lemma set_update_subset: "set (AList.update k v al) \<subseteq> insert (k, v) (set al)"
  by (induction al) auto

lemma set_delete_subset: "set (AList.delete k al) \<subseteq> set al"
  by (induction al) auto

lemma Map_set_eq:
  "Map_set m k v h =
     (if Map_get m k = Some v then (m, h) else (IMap h (AList.update k v (entries m)), Suc h))"
  by (simp add: Map_set_def withMutations_def asMutable_def asImmutable_def mut_set_def
      mut_get_def Map_get_def)

lemma Map_delete_eq:
  "Map_delete m k h =
     (if Map_get m k = None then (m, h)
      else if AList.delete k (entries m) = [] then (emptyMap, h)
      else (IMap h (AList.delete k (entries m)), Suc h))"
  by (simp add: Map_delete_def withMutations_def asMutable_def asImmutable_def mut_delete_def
      mut_get_def Map_get_def)

lemma Map_get_Map_set [simp]:
  "Map_get (fst (Map_set m k v h)) k' = (if k' = k then Some v else Map_get m k')"
  by (auto simp: Map_set_eq Map_get_def update_conv')

lemma Map_get_Map_delete [simp]:
  "Map_get (fst (Map_delete m k h)) k' = (if k' = k then None else Map_get m k')"
  by (auto simp: Map_delete_eq Map_get_def delete_conv' emptyMap_def)
    (metis delete_conv' fun_upd_apply map_of.simps(1))+

lemma all_values_Map_set: "all_values P m \<Longrightarrow> P v \<Longrightarrow> all_values P (fst (Map_set m k v h))"
  using set_update_subset [of k v "entries m"] by (auto simp: Map_set_eq all_values_iff)

lemma all_values_Map_delete: "all_values P m \<Longrightarrow> all_values P (fst (Map_delete m k h))"
  using set_delete_subset [of k "entries m"] by (auto simp: Map_delete_eq all_values_iff)

lemma entries_Map_set [simp]: "entries (fst (Map_set m k v h)) \<noteq> []"
  by (auto simp: Map_set_eq dest: Map_get_entries_nonempty)

lemma proper_Map_delete:
  "entries m = [] \<longrightarrow> m = emptyMap \<Longrightarrow>
   entries (fst (Map_delete m k h)) = [] \<longrightarrow> fst (Map_delete m k h) = emptyMap"
  by (auto simp: Map_delete_eq)

subsection \<open>\<open>updateAndPrune\<close>\<close>

text \<open>
  Claim C4. Let \<open>newValue\<close> be what the updater returns for the value looked up at
  \<open>key\<close> (\<open>None\<close> when absent). The cases are taken in the order of the code. If
  \<open>newValue\<close> is \<open>zero\<close>, the result has no entry at \<open>key\<close> and is unchanged elsewhere.
  Otherwise, if \<open>newValue\<close> is identical to the value looked up, the original map
  instance is returned and no object is created. Otherwise the result is a new map, of
  the unused identity \<open>h1\<close>, with \<open>key\<close> set to \<open>newValue\<close> and unchanged elsewhere.
  The result never holds \<open>zero\<close> at \<open>key\<close>, and whenever it has the same entries as the
  original map it is the original instance.
\<close>

theorem updateAndPrune_result:
  assumes "updater (Map_get m key) h = (newValue, h1)"
  shows
    "(newValue = zero \<longrightarrow>
        Map_get (fst (updateAndPrune m zero key updater h)) key = None \<and>
        (\<forall>k. k \<noteq> key \<longrightarrow>
           Map_get (fst (updateAndPrune m zero key updater h)) k = Map_get m k)) \<and>
     (newValue \<noteq> zero \<and> Some newValue = Map_get m key \<longrightarrow>
        updateAndPrune m zero key updater h = (m, h1)) \<and>
     (newValue \<noteq> zero \<and> Some newValue \<noteq> Map_get m key \<longrightarrow>
        updateAndPrune m zero key updater h =
          (IMap h1 (AList.update key newValue (entries m)), Suc h1) \<and>
        Map_get (fst (updateAndPrune m zero key updater h)) key = Some newValue \<and>
        (\<forall>k. k \<noteq> key \<longrightarrow>
           Map_get (fst (updateAndPrune m zero key updater h)) k = Map_get m k)) \<and>
     Map_get (fst (updateAndPrune m zero key updater h)) key \<noteq> Some zero \<and>
     ((\<forall>k. Map_get (fst (updateAndPrune m zero key updater h)) k = Map_get m k) \<longrightarrow>
        updateAndPrune m zero key updater h = (m, h1))"
proof -
  have del: "newValue = zero \<Longrightarrow> updateAndPrune m zero key updater h = Map_delete m key h1"
    using assms by (simp add: updateAndPrune_def)
  have same: "newValue \<noteq> zero \<Longrightarrow> Some newValue = Map_get m key \<Longrightarrow>
      updateAndPrune m zero key updater h = (m, h1)"
    using assms by (simp add: updateAndPrune_def)
  have upd: "newValue \<noteq> zero \<Longrightarrow> Some newValue \<noteq> Map_get m key \<Longrightarrow>
      updateAndPrune m zero key updater h = Map_set m key newValue h1"
    using assms by (simp add: updateAndPrune_def)
  have upd': "Some newValue \<noteq> Map_get m key \<Longrightarrow>
      Map_set m key newValue h1 = (IMap h1 (AList.update key newValue (entries m)), Suc h1)"
    by (auto simp: Map_set_eq)
  have del': "Map_get m key = None \<Longrightarrow> Map_delete m key h1 = (m, h1)"
    by (simp add: Map_delete_eq)
  consider (z) "newValue = zero" | (s) "newValue \<noteq> zero" "Some newValue = Map_get m key"
    | (u) "newValue \<noteq> zero" "Some newValue \<noteq> Map_get m key" by blast
  then show ?thesis
  proof cases
    case z
    have "(\<forall>k. Map_get (fst (Map_delete m key h1)) k = Map_get m k) \<longrightarrow>
          Map_delete m key h1 = (m, h1)"
    proof
      assume "\<forall>k. Map_get (fst (Map_delete m key h1)) k = Map_get m k"
      then have "Map_get (fst (Map_delete m key h1)) key = Map_get m key" by blast
      then have "Map_get m key = None" by simp
      then show "Map_delete m key h1 = (m, h1)" by (rule del')
    qed
    with z show ?thesis by (simp add: del)
  next
    case s
    then show ?thesis by (auto simp: same)
  next
    case u
    have g: "Map_get (IMap h1 (AList.update key newValue (entries m))) k =
             (if k = key then Some newValue else Map_get m k)" for k
      by (simp add: Map_get_def update_conv')
    have e: "updateAndPrune m zero key updater h =
             (IMap h1 (AList.update key newValue (entries m)), Suc h1)"
      using upd upd' u by simp
    from u(2) have ne: "\<exists>k. (if k = key then Some newValue else Map_get m k) \<noteq> Map_get m k"
      by (intro exI [of _ key]) simp
    from u ne show ?thesis by (simp add: e g)
  qed
qed

theorem updateAndPrune_result_witness:
  "Map_get (fst (updateAndPrune (IMap 5 [(1, 10), (2, 20)]) (0 :: int) (1 :: int)
                  (\<lambda>v h. (0, h)) 7)) 1 = None \<and>
   updateAndPrune (IMap 5 [(1, 10), (2, 20)]) (0 :: int) (1 :: int)
     (\<lambda>v h. (or_default 0 v, h)) 7 = (IMap 5 [(1, 10), (2, 20)], 7) \<and>
   updateAndPrune (IMap 5 [(1, 10), (2, 20)]) (0 :: int) (1 :: int)
     (\<lambda>v h. (or_default 0 v + 1, h)) 7 = (IMap 7 [(1, 11), (2, 20)], 8)"
proof -
  let ?m = "IMap 5 [(1 :: int, 10 :: int), (2, 20)]"
  have a: "(\<lambda>v h. (0 :: int, h)) (Map_get ?m 1) 7 = (0, 7)" by simp
  have b: "(\<lambda>v h. (or_default (0 :: int) v, h)) (Map_get ?m 1) 7 = (10, 7)"
    by (simp add: Map_get_def or_default_def)
  have c: "(\<lambda>v h. (or_default (0 :: int) v + 1, h)) (Map_get ?m 1) 7 = (11, 7)"
    by (simp add: Map_get_def or_default_def)
  have g: "Map_get ?m 1 = Some 10" by (simp add: Map_get_def)
  from updateAndPrune_result [where updater = "\<lambda>v h. (0 :: int, h)" and m = ?m and key = 1
      and h = 7 and newValue = 0 and ?h1.0 = 7 and zero = 0, OF a]
  have "(0 :: int) = 0 \<longrightarrow>
        Map_get (fst (updateAndPrune ?m 0 1 (\<lambda>v h. (0, h)) 7)) 1 = None \<and>
        (\<forall>k. k \<noteq> 1 \<longrightarrow>
           Map_get (fst (updateAndPrune ?m 0 1 (\<lambda>v h. (0, h)) 7)) k = Map_get ?m k)"
    by (rule conjunct1)
  then have 1: "Map_get (fst (updateAndPrune ?m 0 1 (\<lambda>v h. (0, h)) 7)) 1 = None"
    by blast
  from updateAndPrune_result [where updater = "\<lambda>v h. (or_default (0 :: int) v, h)"
      and m = ?m and key = 1 and h = 7 and newValue = 10 and ?h1.0 = 7 and zero = 0, OF b]
  have "(10 :: int) \<noteq> 0 \<and> Some 10 = Map_get ?m 1 \<longrightarrow>
        updateAndPrune ?m 0 1 (\<lambda>v h. (or_default 0 v, h)) 7 = (?m, 7)"
    by blast
  with g have 2: "updateAndPrune ?m 0 1 (\<lambda>v h. (or_default 0 v, h)) 7 = (?m, 7)"
    by simp
  from updateAndPrune_result [where updater = "\<lambda>v h. (or_default (0 :: int) v + 1, h)"
      and m = ?m and key = 1 and h = 7 and newValue = 11 and ?h1.0 = 7 and zero = 0, OF c]
  have "(11 :: int) \<noteq> 0 \<and> Some 11 \<noteq> Map_get ?m 1 \<longrightarrow>
        updateAndPrune ?m 0 1 (\<lambda>v h. (or_default 0 v + 1, h)) 7 =
          (IMap 7 (AList.update 1 11 (entries ?m)), Suc 7) \<and>
        Map_get (fst (updateAndPrune ?m 0 1 (\<lambda>v h. (or_default 0 v + 1, h)) 7)) 1 =
          Some 11 \<and>
        (\<forall>k. k \<noteq> 1 \<longrightarrow>
           Map_get (fst (updateAndPrune ?m 0 1 (\<lambda>v h. (or_default 0 v + 1, h)) 7)) k =
           Map_get ?m k)"
    by blast
  with g have 3: "updateAndPrune ?m 0 1 (\<lambda>v h. (or_default 0 v + 1, h)) 7 =
      (IMap 7 [(1, 11), (2, 20)], 8)"
    by simp
  from 1 2 3 show ?thesis by blast
qed

subsection \<open>Events the reducer cannot use\<close>

text \<open>
  Claim C7. A flags event with flag \<open>read\<close>, \<open>all\<close> false and op \<open>remove\<close> that carries no
  \<open>message_details\<close> returns the very state it was given (the empty index when none was
  given), creates no object, raises nothing and logs exactly one warning.
\<close>

theorem remove_without_details_ignored:
  "streamsReducer state0 (EVENT_UPDATE_MESSAGE_FLAGS ''read'' False ''remove'' messages None) h =
     Inr (or_default initialStreamsState state0,
          [''Got update_message_flags/remove/read event without message_details.''], h)"
  by (simp add: streamsReducer_def)

text \<open>
  Claim C8. A new-message event whose message is a stream message without flags fails
  with the invariant violation, whatever the state; and this is the only failure of the
  reducer: every other action, in every state, returns a state.
\<close>

theorem new_message_without_flags_fails:
  "(msg_type message = ''stream'' \<and> msg_flags message = None \<longrightarrow>
      streamsReducer state0 (EVENT_NEW_MESSAGE message) h =
        Inl (InvariantViolation ''message in EVENT_NEW_MESSAGE must have flags'')) \<and>
   ((\<exists>e. streamsReducer state0 action h = Inl e) \<longleftrightarrow>
      (\<exists>m. action = EVENT_NEW_MESSAGE m \<and> msg_type m = ''stream'' \<and> msg_flags m = None))"
  by (cases action) (simp_all add: streamsReducer_def Let_def split: prod.split option.split)

theorem new_message_without_flags_fails_witness:
  "msg_type \<lparr>msg_type = ''stream'', msg_stream_id = 1, msg_subject = ''a'', msg_id = 12,
              msg_flags = None\<rparr> = ''stream'' \<and>
   msg_flags \<lparr>msg_type = ''stream'', msg_stream_id = 1, msg_subject = ''a'', msg_id = 12,
               msg_flags = None\<rparr> = None \<and>
   streamsReducer None
     (EVENT_NEW_MESSAGE \<lparr>msg_type = ''stream'', msg_stream_id = 1, msg_subject = ''a'',
                          msg_id = 12, msg_flags = None\<rparr>) 1 =
     Inl (InvariantViolation ''message in EVENT_NEW_MESSAGE must have flags'')"
  using new_message_without_flags_fails
    [of "\<lparr>msg_type = ''stream'', msg_stream_id = 1, msg_subject = ''a'', msg_id = 12,
           msg_flags = None\<rparr>" None 1]
  by simp

subsection \<open>The aggregate reducer returns the prior instance when nothing changed\<close>

text \<open>
  Claim C9. Let the four sub-reducers return their results on the fields of a defined
  prior aggregate \<open>prev\<close>. If each result is identical to the field it came from, the
  reducer returns \<open>prev\<close> itself; otherwise it returns a new aggregate, of the unused
  identity \<open>h4\<close>, whose fields are the four results.
\<close>

theorem reducer_short_circuit:
  assumes "streamsReducer (Some (streams prev)) action h = Inr (nextStreams, warnings, h1)"
    and "unreadPmsReducer (Some (pms prev)) action globalState h1 = Inr (nextPms, h2)"
    and "unreadHuddlesReducer (Some (huddles prev)) action globalState h2 = Inr (nextHuddles, h3)"
    and "unreadMentionsReducer (Some (mentions prev)) action h3 = Inr (nextMentions, h4)"
  shows
    "(nextStreams = streams prev \<and> nextPms = pms prev \<and> nextHuddles = huddles prev \<and>
      nextMentions = mentions prev \<longrightarrow>
        reducer unreadPmsReducer unreadHuddlesReducer unreadMentionsReducer
          (Some prev) action globalState h = Inr (prev, warnings, Suc h4)) \<and>
     (\<not> (nextStreams = streams prev \<and> nextPms = pms prev \<and> nextHuddles = huddles prev \<and>
         nextMentions = mentions prev) \<longrightarrow>
        reducer unreadPmsReducer unreadHuddlesReducer unreadMentionsReducer
          (Some prev) action globalState h =
          Inr (\<lparr>state_id = h4, streams = nextStreams, pms = nextPms, huddles = nextHuddles,
                mentions = nextMentions\<rparr>, warnings, Suc h4))"
  using assms by (simp add: reducer_def)

theorem reducer_short_circuit_witness:
  "reducer (\<lambda>s a g h. Inr (or_default (0 :: nat) s, h)) (\<lambda>s a g h. Inr (or_default (0 :: nat) s, h))
     (\<lambda>s a h. Inr (or_default (0 :: nat) s, h))
     (Some \<lparr>state_id = 9, streams = IMap 3 [(1, IMap 2 [(''a'', IList 1 [5])])],
            pms = 0, huddles = 0, mentions = 0\<rparr>)
     MESSAGE_FETCH_COMPLETE () 10 =
     Inr (\<lparr>state_id = 9, streams = IMap 3 [(1, IMap 2 [(''a'', IList 1 [5])])],
            pms = 0, huddles = 0, mentions = 0\<rparr>, [], 11) \<and>
   reducer (\<lambda>s a g h. Inr (or_default (0 :: nat) s, h)) (\<lambda>s a g h. Inr (or_default (0 :: nat) s, h))
     (\<lambda>s a h. Inr (or_default (0 :: nat) s, h))
     (Some \<lparr>state_id = 9, streams = IMap 3 [(1, IMap 2 [(''a'', IList 1 [5])])],
            pms = 0, huddles = 0, mentions = 0\<rparr>)
     RESET_ACCOUNT_DATA () 10 =
     Inr (\<lparr>state_id = 10, streams = initialStreamsState, pms = 0, huddles = 0, mentions = 0\<rparr>,
          [], 11)"
proof -
  let ?prev = "\<lparr>state_id = 9, streams = IMap 3 [(1, IMap 2 [(''a'', IList 1 [5])])],
                pms = 0 :: nat, huddles = 0 :: nat, mentions = 0 :: nat\<rparr>"
  let ?r = "\<lambda>(s :: nat option) (a :: action) (g :: unit) (h :: nat).
              Inr (or_default (0 :: nat) s, h) :: error + nat \<times> nat"
  let ?m = "\<lambda>(s :: nat option) (a :: action) (h :: nat).
              Inr (or_default (0 :: nat) s, h) :: error + nat \<times> nat"
  have s1: "streamsReducer (Some (streams ?prev)) MESSAGE_FETCH_COMPLETE 10 =
            Inr (streams ?prev, [], 10)"
    by (simp add: streamsReducer_def or_default_def)
  have s2: "streamsReducer (Some (streams ?prev)) RESET_ACCOUNT_DATA 10 =
            Inr (initialStreamsState, [], 10)"
    by (simp add: streamsReducer_def or_default_def)
  have p: "?r (Some (pms ?prev)) a () k = Inr (0, k)" for a k
    by (simp add: or_default_def)
  have u: "?r (Some (huddles ?prev)) a () k = Inr (0, k)" for a k
    by (simp add: or_default_def)
  have m: "?m (Some (mentions ?prev)) a k = Inr (0, k)" for a k
    by (simp add: or_default_def)
  have ne: "initialStreamsState \<noteq> streams ?prev"
    by (simp add: initialStreamsState_def emptyMap_def)
  from reducer_short_circuit [where unreadPmsReducer = ?r and unreadHuddlesReducer = ?r
      and unreadMentionsReducer = ?m, OF s1 p u m]
  have 1: "reducer ?r ?r ?m (Some ?prev) MESSAGE_FETCH_COMPLETE () 10 = Inr (?prev, [], 11)"
    by simp
  from reducer_short_circuit [where unreadPmsReducer = ?r and unreadHuddlesReducer = ?r
      and unreadMentionsReducer = ?m, OF s2 p u m] ne
  have 2: "reducer ?r ?r ?m (Some ?prev) RESET_ACCOUNT_DATA () 10 =
           Inr (\<lparr>state_id = 10, streams = initialStreamsState, pms = 0, huddles = 0,
                  mentions = 0\<rparr>, [], 11)"
    by simp
  from 1 2 show ?thesis by blast
qed

subsection \<open>Ids without routing details are passed over when collecting\<close>

lemma collectNewlyUnread_fold_filter:
  "fold (\<lambda>id (newlyUnreadState, h1).
        (case map_of message_details id of
           None \<Rightarrow> (newlyUnreadState, h1)
         | Some message \<Rightarrow>
             if md_type message = ''stream'' then
               updateIn newlyUnreadState (md_stream_id message, md_topic message)
                 (\<lambda>messages. List_push (or_default emptyList messages) [id]) h1
             else (newlyUnreadState, h1)))
     (filter (\<lambda>id. case map_of message_details id of
                      None \<Rightarrow> False | Some d \<Rightarrow> md_type d = ''stream'') messages) acc =
   fold (\<lambda>id (newlyUnreadState, h1).
        (case map_of message_details id of
           None \<Rightarrow> (newlyUnreadState, h1)
         | Some message \<Rightarrow>
             if md_type message = ''stream'' then
               updateIn newlyUnreadState (md_stream_id message, md_topic message)
                 (\<lambda>messages. List_push (or_default emptyList messages) [id]) h1
             else (newlyUnreadState, h1)))
     messages acc"
  by (induction messages arbitrary: acc) (auto split: option.splits)

lemma collectNewlyUnread_filter:
  "collectNewlyUnread details
     (filter (\<lambda>id. case map_of details id of
                      None \<Rightarrow> False | Some d \<Rightarrow> md_type d = ''stream'') messages) h =
   collectNewlyUnread details messages h"
  unfolding collectNewlyUnread_def by (rule collectNewlyUnread_fold_filter)

subsection \<open>Looking up the stream index after an update\<close>

lemma fst_List_of_empty [simp]: "fst (List_of xs h) = emptyList \<longleftrightarrow> xs = []"
  by (simp add: List_of_def emptyList_def)

lemma items_List_filter [simp]: "items (fst (List_filter p xs h)) = filter p (items xs)"
  by (simp add: List_filter_def)

lemma items_List_filterNot [simp]:
  "items (fst (List_filterNot p xs h)) = filter (\<lambda>x. \<not> p x) (items xs)"
  by (simp add: List_filterNot_def)

lemma items_List_sort [simp]: "items (fst (List_sort xs h)) = sort (items xs)"
  by (simp add: List_sort_def)

lemma items_List_push [simp]: "items (fst (List_push xs vs h)) = items xs @ vs"
  by (simp add: List_push_def)

lemma or_default_simps [simp]:
  "or_default d None = d" "or_default d (Some v) = v"
  by (simp_all add: or_default_def)

lemma items_or_default [simp]:
  "items (or_default emptyList x) = or_default [] (map_option items x)"
  by (cases x) simp_all

lemma fst_List_filter_empty [simp]:
  "fst (List_filter p xs h) = emptyList \<longleftrightarrow> filter p (items xs) = []"
  by (simp add: List_filter_def)

lemma Map_get_updateAndPrune:
  "Map_get (fst (updateAndPrune m zero k upd h)) k' =
     (if k' = k then
        (if fst (upd (Map_get m k) h) = zero then None else Some (fst (upd (Map_get m k) h)))
      else Map_get m k')"
  by (auto simp: updateAndPrune_def Let_def split: prod.splits)

lemma unreadIds_alt:
  "unreadIds state sid t =
     map_option items (Map_get (or_default emptyMap (Map_get state sid)) t)"
  by (simp add: unreadIds_def split: option.splits)

lemma items_getIn:
  "items (getIn state (sid, t) emptyList) = or_default [] (unreadIds state sid t)"
  by (simp add: getIn_def unreadIds_def split: option.splits)

lemma unreadIds_deleteMessagesIn:
  "unreadIds (fst (deleteMessagesIn state sid t ids h)) sid' t' =
     (if sid' = sid \<and> t' = t then
        (if filter (\<lambda>id. id \<notin> set ids) (or_default [] (unreadIds state sid t)) = [] then None
         else Some (filter (\<lambda>id. id \<notin> set ids) (or_default [] (unreadIds state sid t))))
      else unreadIds state sid' t')"
proof -
  let ?pm = "or_default emptyMap (Map_get state sid)"
  let ?F = "\<lambda>perTopic. List_filter (\<lambda>id. id \<notin> set ids) (or_default emptyList perTopic)"
  let ?nv = "fst (updateAndPrune ?pm emptyList t ?F h)"
  have inner: "map_option items (Map_get ?nv t') =
      (if t' = t then
         (if filter (\<lambda>id. id \<notin> set ids) (or_default [] (unreadIds state sid t)) = [] then None
          else Some (filter (\<lambda>id. id \<notin> set ids) (or_default [] (unreadIds state sid t))))
       else unreadIds state sid t')"
    by (cases "Map_get ?pm t") (simp_all add: Map_get_updateAndPrune unreadIds_alt)
  have outer: "Map_get (fst (deleteMessagesIn state sid t ids h)) k =
      (if k = sid then (if ?nv = emptyMap then None else Some ?nv) else Map_get state k)" for k
    by (simp add: deleteMessagesIn_def Map_get_updateAndPrune)
  show ?thesis
  proof (cases "sid' = sid")
    case False
    then show ?thesis by (simp add: unreadIds_def outer)
  next
    case True
    have "unreadIds (fst (deleteMessagesIn state sid t ids h)) sid t' =
          map_option items (Map_get ?nv t')"
      by (cases "?nv = emptyMap") (simp_all add: unreadIds_def outer)
    with True inner show ?thesis by simp
  qed
qed

lemma unreadIds_updateIn:
  assumes "\<And>v h. items (fst (upd v h)) = G (or_default [] (map_option items v))"
  shows "unreadIds (fst (updateIn s (k1, k2) upd h)) sid t =
     (if sid = k1 \<and> t = k2 then Some (G (or_default [] (unreadIds s k1 k2)))
      else unreadIds s sid t)"
  by (simp add: updateIn_def Let_def unreadIds_def assms case_prod_beta split: option.splits)

subsection \<open>Moving messages to another topic\<close>

text \<open>
  Claim C5. A move event always returns a state and logs nothing. \<open>matching\<close> are the
  ids of the origin list that the event touches, \<open>remaining\<close> the others. If \<open>matching\<close>
  is empty the state is returned as it is. Otherwise the origin holds \<open>remaining\<close> (no
  entry when that is empty), the destination holds its former ids (those of \<open>remaining\<close>
  when it is the origin itself) with \<open>matching\<close> appended and the whole sorted, and every
  other stream and topic is as before. The instance proved after it is the scenario of
  the claim.
\<close>

theorem move_relocates_matching_ids:
  "\<exists>state' h'.
     streamsReducer (Some state) (EVENT_UPDATE_MESSAGE message_ids (Some mv)) h =
       Inr (state', [], h') \<and>
     (let origin = or_default [] (unreadIds state (orig_stream_id mv) (orig_topic mv));
          matching = filter (\<lambda>id. id \<in> set message_ids) origin;
          remaining = filter (\<lambda>id. id \<notin> set message_ids) origin;
          destination =
            (if orig_stream_id mv = new_stream_id mv \<and> orig_topic mv = new_topic mv
             then remaining
             else or_default [] (unreadIds state (new_stream_id mv) (new_topic mv)))
      in (matching = [] \<longrightarrow> state' = state) \<and>
         (matching \<noteq> [] \<longrightarrow>
            (\<forall>sid t. unreadIds state' sid t =
               (if sid = new_stream_id mv \<and> t = new_topic mv
                then Some (sort (destination @ matching))
                else if sid = orig_stream_id mv \<and> t = orig_topic mv
                then (if remaining = [] then None else Some remaining)
                else unreadIds state sid t)) \<and>
            sorted (or_default [] (unreadIds state' (new_stream_id mv) (new_topic mv)))))"
proof -
  let ?origin = "or_default [] (unreadIds state (orig_stream_id mv) (orig_topic mv))"
  let ?matching = "filter (\<lambda>id. id \<in> set message_ids) ?origin"
  let ?remaining = "filter (\<lambda>id. id \<notin> set message_ids) ?origin"
  let ?matchingIds = "fst (List_filter (\<lambda>id. id \<in> set message_ids)
      (getIn state (orig_stream_id mv, orig_topic mv) emptyList) h)"
  let ?h1 = "snd (List_filter (\<lambda>id. id \<in> set message_ids)
      (getIn state (orig_stream_id mv, orig_topic mv) emptyList) h)"
  let ?upd = "\<lambda>messages h3.
      case List_push (or_default emptyList messages) (items ?matchingIds) h3 of
        (pushed, h4) \<Rightarrow> List_sort pushed h4"
  let ?d = "deleteMessagesIn state (orig_stream_id mv) (orig_topic mv) message_ids ?h1"
  let ?u = "updateIn (fst ?d) (new_stream_id mv, new_topic mv) ?upd (snd ?d)"
  have m: "items ?matchingIds = ?matching"
    by (simp add: items_getIn)
  have size: "List_size ?matchingIds = 0 \<longleftrightarrow> ?matching = []"
    by (simp add: List_size_def items_getIn)
  show ?thesis
  proof (cases "?matching = []")
    case True
    then have "streamsReducer (Some state) (EVENT_UPDATE_MESSAGE message_ids (Some mv)) h =
        Inr (state, [], ?h1)"
      using size by (simp add: streamsReducer_def case_prod_beta)
    with True show ?thesis by (simp add: Let_def)
  next
    case False
    then have r: "streamsReducer (Some state) (EVENT_UPDATE_MESSAGE message_ids (Some mv)) h =
        Inr (fst ?u, [], snd ?u)"
      using size by (simp add: streamsReducer_def case_prod_beta)
    have upd: "items (fst (?upd v k)) = sort (or_default [] (map_option items v) @ ?matching)"
      for v k
      by (simp add: case_prod_beta items_getIn)
    have look: "unreadIds (fst ?u) sid t =
        (if sid = new_stream_id mv \<and> t = new_topic mv
         then Some (sort (or_default []
                (unreadIds (fst ?d) (new_stream_id mv) (new_topic mv)) @ ?matching))
         else unreadIds (fst ?d) sid t)" for sid t
      by (rule unreadIds_updateIn [where G = "\<lambda>xs. sort (xs @ ?matching)"]) (rule upd)
    have look': "unreadIds (fst ?u) sid t =
        (if sid = new_stream_id mv \<and> t = new_topic mv
         then Some (sort ((if orig_stream_id mv = new_stream_id mv \<and> orig_topic mv = new_topic mv
             then ?remaining
             else or_default [] (unreadIds state (new_stream_id mv) (new_topic mv))) @ ?matching))
         else if sid = orig_stream_id mv \<and> t = orig_topic mv
         then (if ?remaining = [] then None else Some ?remaining)
         else unreadIds state sid t)" for sid t
      unfolding look unreadIds_deleteMessagesIn by auto
    have "sorted (or_default [] (unreadIds (fst ?u) (new_stream_id mv) (new_topic mv)))"
      unfolding look by simp
    with False r look' show ?thesis by (simp add: Let_def)
  qed
qed

theorem move_relocates_matching_ids_witness:
  "streamsReducer
     (Some (IMap 5 [(1, IMap 3 [(''a'', IList 1 [3, 7, 10])]), (2, IMap 4 [(''b'', IList 2 [1])])]))
     (EVENT_UPDATE_MESSAGE [7, 10]
        (Some \<lparr>orig_stream_id = 1, orig_topic = ''a'', new_stream_id = 2, new_topic = ''b''\<rparr>)) 6 =
     Inr (IMap 13 [(1, IMap 8 [(''a'', IList 7 [3])]), (2, IMap 12 [(''b'', IList 11 [1, 7, 10])])],
          [], 14) \<and>
   unreadIds (IMap 13 [(1, IMap 8 [(''a'', IList 7 [3])]),
                       (2, IMap 12 [(''b'', IList 11 [1, 7, 10])])]) 1 ''a'' = Some [3] \<and>
   unreadIds (IMap 13 [(1, IMap 8 [(''a'', IList 7 [3])]),
                       (2, IMap 12 [(''b'', IList 11 [1, 7, 10])])]) 2 ''b'' = Some [1, 7, 10]"
proof -
  let ?s = "IMap 5 [(1, IMap 3 [(''a'', IList 1 [3, 7, 10])]), (2, IMap 4 [(''b'', IList 2 [1])])]
              :: UnreadStreamsState"
  let ?mv = "\<lparr>orig_stream_id = 1, orig_topic = ''a'', new_stream_id = 2, new_topic = ''b''\<rparr>"
  let ?x = "IMap 13 [(1, IMap 8 [(''a'', IList 7 [3])]), (2, IMap 12 [(''b'', IList 11 [1, 7, 10])])]
              :: UnreadStreamsState"
  have e: "streamsReducer (Some ?s) (EVENT_UPDATE_MESSAGE [7, 10] (Some ?mv)) 6 =
           Inr (?x, [], 14)"
    by code_simp
  from move_relocates_matching_ids [of ?s "[7, 10]" ?mv 6]
  have l: "\<forall>sid t. unreadIds ?x sid t =
       (if sid = 2 \<and> t = ''b'' then Some [1, 7, 10]
        else if sid = 1 \<and> t = ''a'' then Some [3] else unreadIds ?s sid t)"
    unfolding e by (simp add: Let_def unreadIds_def Map_get_def)
  then have "unreadIds ?x 1 ''a'' = Some [3]" "unreadIds ?x 2 ''b'' = Some [1, 7, 10]"
    by simp_all
  with e show ?thesis by blast
qed

subsection \<open>Marking messages as unread again\<close>

lemma unreadIds_emptyMap [simp]: "unreadIds emptyMap sid t = None"
  by (simp add: unreadIds_def)

lemma groupOf_Nil [simp]: "groupOf details [] sid t = []"
  by (simp add: groupOf_def)

lemma groupOf_Cons:
  "groupOf details (i # ids) sid t =
     (case map_of details i of
        None \<Rightarrow> groupOf details ids sid t
      | Some d \<Rightarrow>
          if md_type d = ''stream'' \<and> md_stream_id d = sid \<and> md_topic d = t
          then i # groupOf details ids sid t else groupOf details ids sid t)"
  by (simp add: groupOf_def split: option.splits)

lemma unreadIds_collect_fold:
  "unreadIds (fst (fold (\<lambda>id (newlyUnreadState, h1).
        (case map_of details id of
           None \<Rightarrow> (newlyUnreadState, h1)
         | Some message \<Rightarrow>
             if md_type message = ''stream'' then
               updateIn newlyUnreadState (md_stream_id message, md_topic message)
                 (\<lambda>messages. List_push (or_default emptyList messages) [id]) h1
             else (newlyUnreadState, h1)))
       messages (acc, h))) sid t =
   (if groupOf details messages sid t = [] then unreadIds acc sid t
    else Some (or_default [] (unreadIds acc sid t) @ groupOf details messages sid t))"
proof (induction messages arbitrary: acc h)
  case Nil
  then show ?case by simp
next
  case (Cons i ids)
  show ?case
  proof (cases "map_of details i")
    case None
    then show ?thesis by (simp add: Cons.IH groupOf_Cons)
  next
    case (Some d)
    show ?thesis
    proof (cases "md_type d = ''stream''")
      case False
      with Some show ?thesis by (simp add: Cons.IH groupOf_Cons)
    next
      case True
      let ?u = "updateIn acc (md_stream_id d, md_topic d)
                  (\<lambda>messages. List_push (or_default emptyList messages) [i]) h"
      have u: "unreadIds (fst ?u) sid t =
          (if sid = md_stream_id d \<and> t = md_topic d
           then Some (or_default [] (unreadIds acc (md_stream_id d) (md_topic d)) @ [i])
           else unreadIds acc sid t)"
        by (rule unreadIds_updateIn [where G = "\<lambda>xs. xs @ [i]"]) simp
      from Some True Cons.IH [of "fst ?u" "snd ?u"] show ?thesis
        by (simp add: groupOf_Cons u)
    qed
  qed
qed

lemma unreadIds_collectNewlyUnread:
  "unreadIds (fst (collectNewlyUnread details messages h)) sid t =
     (if groupOf details messages sid t = [] then None
      else Some (groupOf details messages sid t))"
  unfolding collectNewlyUnread_def by (simp add: unreadIds_collect_fold)

lemma distinct_keys_Map_set:
  "distinct (map fst (entries m)) \<Longrightarrow> distinct (map fst (entries (fst (Map_set m k v h))))"
  by (simp add: Map_set_eq distinct_update)

lemma distinct_keys_updateIn:
  assumes "distinct (map fst (entries s))"
    and "all_values (\<lambda>pm. distinct (map fst (entries pm))) s"
  shows "distinct (map fst (entries (fst (updateIn s p upd h)))) \<and>
         all_values (\<lambda>pm. distinct (map fst (entries pm))) (fst (updateIn s p upd h))"
proof -
  let ?inner = "or_default emptyMap (Map_get s (fst p))"
  have "distinct (map fst (entries ?inner))"
    using assms(2) by (cases "Map_get s (fst p)") (auto dest: Map_get_value)
  then have "distinct (map fst (entries (fst (Map_set ?inner k v h'))))" for k v h'
    by (rule distinct_keys_Map_set)
  with assms show ?thesis
    by (simp add: updateIn_def Let_def case_prod_beta distinct_keys_Map_set all_values_Map_set)
qed

lemma distinct_keys_collect_fold:
  assumes "distinct (map fst (entries acc))"
    and "all_values (\<lambda>pm. distinct (map fst (entries pm))) acc"
  shows "distinct (map fst (entries (fst (fold (\<lambda>i (newlyUnreadState, h1).
        (case map_of details i of
           None \<Rightarrow> (newlyUnreadState, h1)
         | Some message \<Rightarrow>
             if md_type message = ''stream'' then
               updateIn newlyUnreadState (md_stream_id message, md_topic message)
                 (\<lambda>messages. List_push (or_default emptyList messages) [i]) h1
             else (newlyUnreadState, h1)))
       messages (acc, h))))) \<and>
     all_values (\<lambda>pm. distinct (map fst (entries pm))) (fst (fold (\<lambda>i (newlyUnreadState, h1).
        (case map_of details i of
           None \<Rightarrow> (newlyUnreadState, h1)
         | Some message \<Rightarrow>
             if md_type message = ''stream'' then
               updateIn newlyUnreadState (md_stream_id message, md_topic message)
                 (\<lambda>messages. List_push (or_default emptyList messages) [i]) h1
             else (newlyUnreadState, h1)))
       messages (acc, h)))"
  using assms
proof (induction messages arbitrary: acc h)
  case Nil
  then show ?case by simp
next
  case (Cons i ids)
  show ?case
  proof (cases "map_of details i")
    case None
    with Cons show ?thesis by simp
  next
    case (Some d)
    show ?thesis
    proof (cases "md_type d = ''stream''")
      case False
      with Some Cons show ?thesis by simp
    next
      case True
      let ?u = "updateIn acc (md_stream_id d, md_topic d)
                  (\<lambda>messages. List_push (or_default emptyList messages) [i]) h"
      from distinct_keys_updateIn [OF Cons.prems]
      have "distinct (map fst (entries (fst ?u)))"
        and "all_values (\<lambda>pm. distinct (map fst (entries pm))) (fst ?u)"
        by blast+
      from Cons.IH [OF this, of "snd ?u"] Some True show ?thesis by simp
    qed
  qed
qed

lemma distinct_keys_collectNewlyUnread:
  "distinct (map fst (entries (fst (collectNewlyUnread details messages h)))) \<and>
   all_values (\<lambda>pm. distinct (map fst (entries pm)))
     (fst (collectNewlyUnread details messages h))"
  unfolding collectNewlyUnread_def by (rule distinct_keys_collect_fold) simp_all

lemma update_fresh: "k \<notin> fst ` set al \<Longrightarrow> AList.update k v al = al @ [(k, v)]"
  by (induction al) auto

lemma fold_mut_set_distinct:
  "distinct (map fst es) \<Longrightarrow> fst ` set es \<inter> fst ` set (fst mut) = {} \<Longrightarrow>
   fold (\<lambda>(k, v). mut_set k v) es mut = (fst mut @ es, snd mut \<or> es \<noteq> [])"
proof (induction es arbitrary: mut)
  case Nil
  then show ?case by simp
next
  case (Cons e es)
  obtain k v where e: "e = (k, v)" by (cases e)
  from Cons.prems e have fresh: "k \<notin> fst ` set (fst mut)" by auto
  then have "mut_get mut k = None"
    by (simp add: mut_get_def map_of_eq_None_iff)
  then have s: "mut_set k v mut = (fst mut @ [(k, v)], True)"
    using fresh by (simp add: mut_set_def update_fresh)
  from Cons.prems e have "distinct (map fst es)"
    and "fst ` set es \<inter> fst ` set (fst (fst mut @ [(k, v)], True)) = {}"
    by auto
  from Cons.IH [OF this] show ?case by (simp add: e s)
qed

lemma entries_Map_of: "distinct (map fst es) \<Longrightarrow> entries (fst (Map_of es h)) = es"
  by (simp add: Map_of_def withMutations_def asMutable_def asImmutable_def
      fold_mut_set_distinct)

lemma map_fst_Seq_map: "map fst (fst (Seq_map f es h)) = map fst es"
  by (induction es arbitrary: h) (simp_all add: case_prod_beta)

lemma set_Seq_map:
  "e' \<in> set (fst (Seq_map f es h)) \<Longrightarrow>
   \<exists>e\<in>set es. \<exists>h'. e' = (fst e, fst (f (snd e) h'))"
  by (induction es arbitrary: h) (auto simp: case_prod_beta)

lemma map_of_Seq_map:
  assumes "\<And>v h. v \<in> snd ` set es \<Longrightarrow> C (fst (f v h)) = g v"
  shows "map_option C (map_of (fst (Seq_map f es h)) k) = map_option g (map_of es k)"
  using assms
proof (induction es arbitrary: h)
  case Nil
  then show ?case by simp
next
  case (Cons e es)
  have "map_option C (map_of (fst (Seq_map f es h')) k) = map_option g (map_of es k)" for h'
    by (rule Cons.IH) (simp add: Cons.prems)
  moreover have "C (fst (f (snd e) h)) = g (snd e)"
    by (rule Cons.prems) simp
  ultimately show ?case by (cases e) (simp add: case_prod_beta)
qed

lemma entries_Map_map:
  "distinct (map fst (entries m)) \<Longrightarrow>
   entries (fst (Map_map f m h)) = fst (Seq_map f (entries m) h)"
  by (simp add: Map_map_def case_prod_beta entries_Map_of map_fst_Seq_map)

lemma Map_get_Map_map:
  assumes "distinct (map fst (entries m))"
    and "\<And>v h. v \<in> snd ` set (entries m) \<Longrightarrow> C (fst (f v h)) = g v"
  shows "map_option C (Map_get (fst (Map_map f m h)) k) = map_option g (Map_get m k)"
  unfolding Map_get_def entries_Map_map [OF assms(1)]
  by (rule map_of_Seq_map) (rule assms(2))

lemma mut_get_mut_set [simp]:
  "mut_get (mut_set k v mut) k' = (if k' = k then Some v else mut_get mut k')"
  by (auto simp: mut_set_def mut_get_def update_conv')

lemma mut_set_consistent:
  "snd mut \<or> fst mut = es0 \<Longrightarrow> snd (mut_set k v mut) \<or> fst (mut_set k v mut) = es0"
  by (auto simp: mut_set_def)

lemma Map_get_asImmutable:
  "snd mut \<or> fst mut = entries m \<Longrightarrow> Map_get (fst (asImmutable m mut h)) k = mut_get mut k"
  by (auto simp: asImmutable_def Map_get_def mut_get_def)

lemma mergeWith_fold_consistent:
  "snd mut \<or> fst mut = es0 \<Longrightarrow>
   snd (fst (fold (\<lambda>(key, value) (mut, h1).
        (case mut_get mut key of
           None \<Rightarrow> (mut_set key value mut, h1)
         | Some oldVal \<Rightarrow>
             (case merger oldVal value h1 of (v, h2) \<Rightarrow> (mut_set key v mut, h2))))
      es (mut, h))) \<or>
   fst (fst (fold (\<lambda>(key, value) (mut, h1).
        (case mut_get mut key of
           None \<Rightarrow> (mut_set key value mut, h1)
         | Some oldVal \<Rightarrow>
             (case merger oldVal value h1 of (v, h2) \<Rightarrow> (mut_set key v mut, h2))))
      es (mut, h))) = es0"
proof (induction es arbitrary: mut h)
  case Nil
  then show ?case by simp
next
  case (Cons e es)
  obtain key b where e: "e = (key, b)" by (cases e)
  show ?case
  proof (cases "mut_get mut key")
    case None
    from Cons.IH [OF mut_set_consistent [OF Cons.prems], of key b h] None e
    show ?thesis by simp
  next
    case (Some a)
    obtain v h2 where mg: "merger a b h = (v, h2)" by (cases "merger a b h")
    from Cons.IH [OF mut_set_consistent [OF Cons.prems], of key v h2] Some e mg
    show ?thesis by simp
  qed
qed

lemma mergeWith_fold_get:
  assumes "distinct (map fst es)"
    and "\<And>a b h. b \<in> snd ` set es \<Longrightarrow> C (fst (merger a b h)) = M (C a) (C b)"
  shows "map_option C (mut_get (fst (fold (\<lambda>(key, value) (mut, h1).
        (case mut_get mut key of
           None \<Rightarrow> (mut_set key value mut, h1)
         | Some oldVal \<Rightarrow>
             (case merger oldVal value h1 of (v, h2) \<Rightarrow> (mut_set key v mut, h2))))
      es (mut, h))) k) =
    (case map_of es k of
       None \<Rightarrow> map_option C (mut_get mut k)
     | Some b \<Rightarrow> (case mut_get mut k of None \<Rightarrow> Some (C b) | Some a \<Rightarrow> Some (M (C a) (C b))))"
  using assms
proof (induction es arbitrary: mut h)
  case Nil
  then show ?case by simp
next
  case (Cons e es)
  obtain key b where e: "e = (key, b)" by (cases e)
  from Cons.prems(1) e have d: "distinct (map fst es)" and fresh: "map_of es key = None"
    by (auto simp: map_of_eq_None_iff)
  have m: "C (fst (merger a b' h')) = M (C a) (C b')" if "b' \<in> snd ` set es" for a b' h'
    using that by (intro Cons.prems(2)) simp
  have mb: "C (fst (merger a b h')) = M (C a) (C b)" for a h'
    by (rule Cons.prems(2)) (simp add: e)
  note IH = Cons.IH [OF d m]
  show ?case
  proof (cases "mut_get mut key")
    case None
    with e fresh show ?thesis by (simp add: IH split: option.split)
  next
    case (Some a)
    obtain v h2 where mg: "merger a b h = (v, h2)" by (cases "merger a b h")
    from mb [of a h] mg have "C v = M (C a) (C b)" by simp
    with Some e fresh mg show ?thesis by (simp add: IH split: option.split)
  qed
qed

lemma Map_get_mergeWith:
  assumes "distinct (map fst (entries other))"
    and "\<And>a b h. b \<in> snd ` set (entries other) \<Longrightarrow> C (fst (merger a b h)) = M (C a) (C b)"
  shows "map_option C (Map_get (fst (mergeWith merger m other h)) k) =
    (case Map_get other k of
       None \<Rightarrow> map_option C (Map_get m k)
     | Some b \<Rightarrow> (case Map_get m k of None \<Rightarrow> Some (C b) | Some a \<Rightarrow> Some (M (C a) (C b))))"
proof (cases "entries other = []")
  case True
  then show ?thesis by (simp add: mergeWith_def Map_get_def)
next
  case other: False
  show ?thesis
  proof (cases "entries m = []")
    case True
    with other show ?thesis by (simp add: mergeWith_def Map_get_def split: option.splits)
  next
    case False
    let ?step = "\<lambda>(key, value) (mut, h1).
        (case mut_get mut key of
           None \<Rightarrow> (mut_set key value mut, h1)
         | Some oldVal \<Rightarrow>
             (case merger oldVal value h1 of (v, h2) \<Rightarrow> (mut_set key v mut, h2)))"
    obtain mut' h' where f: "fold ?step (entries other) (asMutable m, h) = (mut', h')"
      by (cases "fold ?step (entries other) (asMutable m, h)")
    have r: "mergeWith merger m other h = asImmutable m mut' h'"
      using other False f by (simp add: mergeWith_def withMutations_def forEach_def)
    have "snd (fst (fold ?step (entries other) (asMutable m, h))) \<or>
          fst (fst (fold ?step (entries other) (asMutable m, h))) = entries m"
      unfolding asMutable_def by (rule mergeWith_fold_consistent) simp
    then have c: "snd mut' \<or> fst mut' = entries m" by (simp add: f)
    have g: "mut_get (asMutable m) k = Map_get m k"
      by (simp add: Map_get_def mut_get_def asMutable_def)
    have g': "map_of (entries other) k = Map_get other k"
      by (simp add: Map_get_def)
    have "map_option C (mut_get mut' k) =
      (case Map_get other k of
         None \<Rightarrow> map_option C (Map_get m k)
       | Some b \<Rightarrow> (case Map_get m k of None \<Rightarrow> Some (C b) | Some a \<Rightarrow> Some (M (C a) (C b))))"
      using mergeWith_fold_get [where C = C and M = M and merger = merger and
          es = "entries other" and mut = "asMutable m" and h = h and k = k,
          OF assms(1) assms(2)]
      unfolding f fst_conv g g' by simp
    then show ?thesis
      by (simp add: r Map_get_asImmutable [OF c])
  qed
qed

lemma unreadIds_content:
  "unreadIds s sid t =
     (case map_option (\<lambda>pm t. map_option items (Map_get pm t)) (Map_get s sid) of
        None \<Rightarrow> None | Some f \<Rightarrow> f t)"
  by (simp add: unreadIds_def split: option.splits)

lemma distinct_keys_Map_map:
  "distinct (map fst (entries m)) \<Longrightarrow> distinct (map fst (entries (fst (Map_map f m h))))"
  by (simp add: entries_Map_map map_fst_Seq_map)

lemma unreadIds_Map_map_sort:
  assumes "distinct (map fst (entries s))"
    and "all_values (\<lambda>pm. distinct (map fst (entries pm))) s"
  shows "unreadIds (fst (Map_map (Map_map List_sort) s h)) sid t =
         map_option sort (unreadIds s sid t)"
proof -
  let ?C = "\<lambda>pm t. map_option items (Map_get pm t)"
  let ?g = "\<lambda>pm t. map_option sort (map_option items (Map_get pm t))"
  have inner: "?C (fst (Map_map List_sort v h')) = ?g v"
    if "v \<in> snd ` set (entries s)" for v h'
  proof
    fix t'
    from that assms(2) have "distinct (map fst (entries v))"
      by (auto simp: all_values_iff)
    then have "map_option items (Map_get (fst (Map_map List_sort v h')) t') =
               map_option (\<lambda>l. sort (items l)) (Map_get v t')"
      by (rule Map_get_Map_map) simp
    then show "?C (fst (Map_map List_sort v h')) t' = ?g v t'"
      by (simp add: option.map_comp comp_def)
  qed
  have "map_option ?C (Map_get (fst (Map_map (Map_map List_sort) s h)) sid) =
        map_option ?g (Map_get s sid)"
    by (rule Map_get_Map_map [where C = ?C and g = ?g, OF assms(1)]) (rule inner)
  then show ?thesis
    unfolding unreadIds_content [of "fst (Map_map (Map_map List_sort) s h)"]
    by (simp add: unreadIds_def split: option.splits)
qed

lemma distinct_keys_Map_map_nested:
  assumes "distinct (map fst (entries s))"
    and "all_values (\<lambda>pm. distinct (map fst (entries pm))) s"
  shows "distinct (map fst (entries (fst (Map_map (Map_map f) s h)))) \<and>
         all_values (\<lambda>pm. distinct (map fst (entries pm))) (fst (Map_map (Map_map f) s h))"
proof -
  have "distinct (map fst (entries (snd e')))"
    if "e' \<in> set (fst (Seq_map (Map_map f) (entries s) h))" for e'
  proof -
    from set_Seq_map [OF that] obtain e h' where
      e: "e \<in> set (entries s)" "e' = (fst e, fst (Map_map f (snd e) h'))" by blast
    from e(1) assms(2) have "distinct (map fst (entries (snd e)))"
      by (auto simp: all_values_iff)
    then show ?thesis by (simp add: e(2) distinct_keys_Map_map)
  qed
  then show ?thesis
    using assms(1)
    by (simp add: distinct_keys_Map_map all_values_iff entries_Map_map map_fst_Seq_map)
qed

lemma unreadIds_mergeWith_setUnion:
  assumes "distinct (map fst (entries other))"
    and "all_values (\<lambda>pm. distinct (map fst (entries pm))) other"
  shows "unreadIds (fst (mergeWith (mergeWith setUnion) state other h)) sid t =
    (case unreadIds other sid t of
       None \<Rightarrow> unreadIds state sid t
     | Some y \<Rightarrow>
         (case unreadIds state sid t of None \<Rightarrow> Some y | Some x \<Rightarrow> Some (sorted_union x y)))"
proof -
  let ?C = "\<lambda>pm t. map_option items (Map_get pm t)"
  let ?M = "\<lambda>f n t. case n t of
      None \<Rightarrow> f t
    | Some y \<Rightarrow> (case f t of None \<Rightarrow> Some y | Some x \<Rightarrow> Some (sorted_union x (y :: int list)))"
  have inner: "?C (fst (mergeWith setUnion a b h')) = ?M (?C a) (?C b)"
    if "b \<in> snd ` set (entries other)" for a b h'
  proof
    fix t'
    from that assms(2) have "distinct (map fst (entries b))"
      by (auto simp: all_values_iff)
    then have "map_option items (Map_get (fst (mergeWith setUnion a b h')) t') =
      (case Map_get b t' of
         None \<Rightarrow> map_option items (Map_get a t')
       | Some y \<Rightarrow>
           (case Map_get a t' of
              None \<Rightarrow> Some (items y)
            | Some x \<Rightarrow> Some (sorted_union (items x) (items y))))"
      by (rule Map_get_mergeWith [where C = items and M = sorted_union])
        (rule items_setUnion)
    then show "?C (fst (mergeWith setUnion a b h')) t' = ?M (?C a) (?C b) t'"
      by (simp split: option.splits)
  qed
  have "map_option ?C (Map_get (fst (mergeWith (mergeWith setUnion) state other h)) sid) =
    (case Map_get other sid of
       None \<Rightarrow> map_option ?C (Map_get state sid)
     | Some b \<Rightarrow>
         (case Map_get state sid of
            None \<Rightarrow> Some (?C b) | Some a \<Rightarrow> Some (?M (?C a) (?C b))))"
    by (rule Map_get_mergeWith [where C = ?C and M = ?M, OF assms(1)]) (rule inner)
  then show ?thesis
    unfolding unreadIds_content by (auto split: option.splits)
qed

lemma sort_eq_Nil: "sort xs = [] \<longleftrightarrow> xs = []"
  by (metis length_0_conv length_sort)

lemma groupOf_routed:
  "groupOf details
     (filter (\<lambda>id. case map_of details id of
                      None \<Rightarrow> False | Some d \<Rightarrow> md_type d = ''stream'') messages) sid t =
   groupOf details messages sid t"
  by (induction messages) (auto simp: groupOf_def split: option.splits)

lemma unreadIds_remove_event:
  "unreadIds
     (fst (mergeWith (mergeWith setUnion) state
        (fst (Map_map (Map_map List_sort) (fst (collectNewlyUnread details messages h))
           (snd (collectNewlyUnread details messages h))))
        (snd (Map_map (Map_map List_sort) (fst (collectNewlyUnread details messages h))
           (snd (collectNewlyUnread details messages h)))))) sid t =
   (if sort (groupOf details messages sid t) = [] then unreadIds state sid t
    else case unreadIds state sid t of
           None \<Rightarrow> Some (sort (groupOf details messages sid t))
         | Some ids \<Rightarrow> Some (sorted_union ids (sort (groupOf details messages sid t))))"
proof -
  let ?c = "collectNewlyUnread details messages h"
  let ?s = "Map_map (Map_map List_sort) (fst ?c) (snd ?c)"
  note dc = distinct_keys_collectNewlyUnread [of details messages h]
  from dc have ds: "distinct (map fst (entries (fst ?s)))"
    "all_values (\<lambda>pm. distinct (map fst (entries pm))) (fst ?s)"
    using distinct_keys_Map_map_nested [of "fst ?c" List_sort "snd ?c"] by blast+
  have sorted: "unreadIds (fst ?s) sid t =
      (if groupOf details messages sid t = [] then None
       else Some (sort (groupOf details messages sid t)))"
    using dc by (simp add: unreadIds_Map_map_sort unreadIds_collectNewlyUnread)
  show ?thesis
    by (simp add: unreadIds_mergeWith_setUnion [OF ds] sorted sort_eq_Nil)
qed

text \<open>
  Claim C6, as amended. A flags event with flag \<open>read\<close>, \<open>all\<close> false, op \<open>remove\<close> and
  \<open>message_details\<close> present returns a state and logs nothing. For every stream and
  topic, \<open>group\<close> is the sorted list of the event's ids routed there. Where \<open>group\<close> is
  empty the entry is as before; where the index had no entry it now holds \<open>group\<close>;
  otherwise it holds the union \<open>sorted_union ids group\<close> that \<open>setUnion\<close> computes. The
  ids of the entry are then those it had together with those of the group. When the event
  lists no id twice and the entry was strictly ascending, the entry is strictly ascending
  afterwards: duplicates collapse and order is preserved. The instance proved after it is
  the scenario of the claim, with the ids delivered out of order.
\<close>

theorem remove_merges_sorted_groups:
  "\<exists>state' h'.
     streamsReducer (Some state)
       (EVENT_UPDATE_MESSAGE_FLAGS ''read'' False ''remove'' messages (Some details)) h =
       Inr (state', [], h') \<and>
     (\<forall>sid t.
        unreadIds state' sid t =
          (let group = sort (groupOf details messages sid t) in
           if group = [] then unreadIds state sid t
           else case unreadIds state sid t of
                  None \<Rightarrow> Some group
                | Some ids \<Rightarrow> Some (sorted_union ids group)) \<and>
        set (or_default [] (unreadIds state' sid t)) =
          set (or_default [] (unreadIds state sid t)) \<union> set (groupOf details messages sid t) \<and>
        (distinct messages \<and> sorted_wrt (<) (or_default [] (unreadIds state sid t)) \<longrightarrow>
           sorted_wrt (<) (or_default [] (unreadIds state' sid t))))"
proof -
  let ?c = "collectNewlyUnread details messages h"
  let ?s = "Map_map (Map_map List_sort) (fst ?c) (snd ?c)"
  let ?m = "mergeWith (mergeWith setUnion) state (fst ?s) (snd ?s)"
  have r: "streamsReducer (Some state)
       (EVENT_UPDATE_MESSAGE_FLAGS ''read'' False ''remove'' messages (Some details)) h =
       Inr (fst ?m, [], snd ?m)"
    by (simp add: streamsReducer_def case_prod_beta)
  note dc = distinct_keys_collectNewlyUnread [of details messages h]
  from dc have ds: "distinct (map fst (entries (fst ?s)))"
    "all_values (\<lambda>pm. distinct (map fst (entries pm))) (fst ?s)"
    using distinct_keys_Map_map_nested [of "fst ?c" List_sort "snd ?c"] by blast+
  have sorted: "unreadIds (fst ?s) sid t =
      (if groupOf details messages sid t = [] then None
       else Some (sort (groupOf details messages sid t)))" for sid t
    using dc by (simp add: unreadIds_Map_map_sort unreadIds_collectNewlyUnread)
  have look: "unreadIds (fst ?m) sid t =
      (if sort (groupOf details messages sid t) = [] then unreadIds state sid t
       else case unreadIds state sid t of
              None \<Rightarrow> Some (sort (groupOf details messages sid t))
            | Some ids \<Rightarrow> Some (sorted_union ids (sort (groupOf details messages sid t))))"
    for sid t
    by (simp add: unreadIds_mergeWith_setUnion [OF ds] sorted sort_eq_Nil)
  have sets: "set (or_default [] (unreadIds (fst ?m) sid t)) =
      set (or_default [] (unreadIds state sid t)) \<union> set (groupOf details messages sid t)"
    for sid t
    by (cases "unreadIds state sid t") (auto simp: look sort_eq_Nil)
  have strict: "sorted_wrt (<) (or_default [] (unreadIds (fst ?m) sid t))"
    if "distinct messages" "sorted_wrt (<) (or_default [] (unreadIds state sid t))" for sid t
  proof -
    from that(1) have "distinct (groupOf details messages sid t)"
      by (simp add: groupOf_def)
    then have g: "sorted_wrt (<) (sort (groupOf details messages sid t))"
      by (simp add: strict_sorted_iff)
    show ?thesis
    proof (cases "unreadIds state sid t")
      case None
      with g show ?thesis by (simp add: look sort_eq_Nil)
    next
      case (Some ids)
      with that(2) g show ?thesis by (simp add: look sorted_union_strict sort_eq_Nil)
    qed
  qed
  from r look sets strict show ?thesis by (simp add: Let_def)
qed

theorem remove_merges_sorted_groups_witness:
  "streamsReducer (Some initialStreamsState)
     (EVENT_UPDATE_MESSAGE_FLAGS ''read'' False ''remove'' [21, 20]
        (Some [(20, \<lparr>md_type = ''stream'', md_stream_id = 1, md_topic = ''x''\<rparr>),
               (21, \<lparr>md_type = ''stream'', md_stream_id = 1, md_topic = ''x''\<rparr>)])) 1 =
     Inr (IMap 9 [(1, IMap 8 [(''x'', IList 7 [20, 21])])], [], 10) \<and>
   unreadIds (IMap 9 [(1, IMap 8 [(''x'', IList 7 [20, 21])])]) 1 ''x'' = Some [20, 21] \<and>
   sorted_wrt (<) (or_default []
     (unreadIds (IMap 9 [(1, IMap 8 [(''x'', IList 7 [20, 21])])]) 1 ''x''))"
proof -
  let ?d = "[(20 :: int, \<lparr>md_type = ''stream'', md_stream_id = 1, md_topic = ''x''\<rparr>),
             (21, \<lparr>md_type = ''stream'', md_stream_id = 1, md_topic = ''x''\<rparr>)]"
  let ?x = "IMap 9 [(1, IMap 8 [(''x'', IList 7 [20, 21])])] :: UnreadStreamsState"
  have e: "streamsReducer (Some initialStreamsState)
     (EVENT_UPDATE_MESSAGE_FLAGS ''read'' False ''remove'' [21, 20] (Some ?d)) 1 =
     Inr (?x, [], 10)"
    by code_simp
  have g: "groupOf ?d [21, 20] 1 ''x'' = [21, 20]"
    by (simp add: groupOf_def)
  have i: "unreadIds initialStreamsState 1 ''x'' = None"
    by (simp add: initialStreamsState_def)
  from remove_merges_sorted_groups [of initialStreamsState "[21, 20]" ?d 1]
  obtain state' h' where
    r: "streamsReducer (Some initialStreamsState)
       (EVENT_UPDATE_MESSAGE_FLAGS ''read'' False ''remove'' [21, 20] (Some ?d)) 1 =
       Inr (state', [], h')"
    and l: "\<forall>sid t.
        unreadIds state' sid t =
          (let group = sort (groupOf ?d [21, 20] sid t) in
           if group = [] then unreadIds initialStreamsState sid t
           else case unreadIds initialStreamsState sid t of
                  None \<Rightarrow> Some group
                | Some ids \<Rightarrow> Some (sorted_union ids group)) \<and>
        set (or_default [] (unreadIds state' sid t)) =
          set (or_default [] (unreadIds initialStreamsState sid t)) \<union>
          set (groupOf ?d [21, 20] sid t) \<and>
        (distinct [21, 20 :: int] \<and>
         sorted_wrt (<) (or_default [] (unreadIds initialStreamsState sid t)) \<longrightarrow>
           sorted_wrt (<) (or_default [] (unreadIds state' sid t)))"
    by blast
  from r e have x: "state' = ?x" by simp
  from l have "unreadIds state' 1 ''x'' =
          (let group = sort (groupOf ?d [21, 20] 1 ''x'') in
           if group = [] then unreadIds initialStreamsState 1 ''x''
           else case unreadIds initialStreamsState 1 ''x'' of
                  None \<Rightarrow> Some group
                | Some ids \<Rightarrow> Some (sorted_union ids group))"
    and "distinct [21, 20 :: int] \<and>
         sorted_wrt (<) (or_default [] (unreadIds initialStreamsState 1 ''x'')) \<longrightarrow>
           sorted_wrt (<) (or_default [] (unreadIds state' 1 ''x''))"
    by blast+
  then have "unreadIds ?x 1 ''x'' = Some [20, 21]"
    and "sorted_wrt (<) (or_default [] (unreadIds ?x 1 ''x''))"
    unfolding g i x by simp_all
  with e show ?thesis by blast
qed

text \<open>
  Claim C6 as stated, for every such event, fails: the group is sorted but not
  deduplicated, and \<open>setUnion\<close> collapses only an id of one list against the same id of
  the other. An event that lists id 20 twice leaves it twice in the entry, both when the
  entry already held \<open>[20]\<close> and when the index was empty; the entry is then neither free
  of duplicates nor strictly ascending.
\<close>

theorem repeated_id_in_group_counterexample:
  "streamsReducer (Some (IMap 3 [(1, IMap 2 [(''x'', IList 1 [20])])]))
     (EVENT_UPDATE_MESSAGE_FLAGS ''read'' False ''remove'' [20, 20]
        (Some [(20, \<lparr>md_type = ''stream'', md_stream_id = 1, md_topic = ''x''\<rparr>)])) 4 =
     Inr (IMap 15 [(1, IMap 14 [(''x'', IList 13 [20, 20])])], [], 16) \<and>
   unreadIds (IMap 3 [(1, IMap 2 [(''x'', IList 1 [20])])]) 1 ''x'' = Some [20] \<and>
   unreadIds (IMap 15 [(1, IMap 14 [(''x'', IList 13 [20, 20])])]) 1 ''x'' = Some [20, 20] \<and>
   \<not> distinct (or_default []
     (unreadIds (IMap 15 [(1, IMap 14 [(''x'', IList 13 [20, 20])])]) 1 ''x'')) \<and>
   \<not> sorted_wrt (<) (or_default []
     (unreadIds (IMap 15 [(1, IMap 14 [(''x'', IList 13 [20, 20])])]) 1 ''x'')) \<and>
   streamsReducer (Some initialStreamsState)
     (EVENT_UPDATE_MESSAGE_FLAGS ''read'' False ''remove'' [20, 20]
        (Some [(20, \<lparr>md_type = ''stream'', md_stream_id = 1, md_topic = ''x''\<rparr>)])) 1 =
     Inr (IMap 9 [(1, IMap 8 [(''x'', IList 7 [20, 20])])], [], 10) \<and>
   \<not> distinct (or_default []
     (unreadIds (IMap 9 [(1, IMap 8 [(''x'', IList 7 [20, 20])])]) 1 ''x''))"
  by code_simp

text \<open>
  Claim C10. With \<open>message_details\<close> present, the ids of the event that have no detail, or
  a detail that is not of a stream message, are passed over: the reducer returns what it
  returns for the event without them (the same state, identities and log), it does not
  fail and it logs nothing. The remaining ids are still grouped and merged into the index:
  for every stream and topic, \<open>group\<close> is the sorted list of the remaining ids routed
  there; where it is empty the entry is as before, where the index had no entry it now
  holds \<open>group\<close>, otherwise it holds \<open>sorted_union ids group\<close>. So each entry holds the ids
  it had together with the event's ids that a stream detail routes to it, and no other.
  Only the event without \<open>message_details\<close> logs the warning and returns the state as it
  was. The instance proved after it starts from an index with two entries: id 99 has no
  detail and id 30 is a private message, ids 20 and 21 join an entry, id 40 makes a new
  one, and the entry of the other stream is kept.
\<close>

theorem remove_skips_unrouted_ids:
  "streamsReducer state0
     (EVENT_UPDATE_MESSAGE_FLAGS ''read'' False ''remove'' messages (Some details)) h =
   streamsReducer state0
     (EVENT_UPDATE_MESSAGE_FLAGS ''read'' False ''remove''
        (filter (\<lambda>id. case map_of details id of
                         None \<Rightarrow> False | Some d \<Rightarrow> md_type d = ''stream'') messages)
        (Some details)) h \<and>
   (\<exists>state' h'.
      streamsReducer state0
        (EVENT_UPDATE_MESSAGE_FLAGS ''read'' False ''remove'' messages (Some details)) h =
        Inr (state', [], h') \<and>
      (\<forall>sid t.
         unreadIds state' sid t =
           (let group = sort (groupOf details
                  (filter (\<lambda>id. case map_of details id of
                                   None \<Rightarrow> False | Some d \<Rightarrow> md_type d = ''stream'')
                     messages) sid t)
            in if group = [] then unreadIds (or_default initialStreamsState state0) sid t
               else case unreadIds (or_default initialStreamsState state0) sid t of
                      None \<Rightarrow> Some group
                    | Some ids \<Rightarrow> Some (sorted_union ids group)) \<and>
         set (or_default [] (unreadIds state' sid t)) =
           set (or_default [] (unreadIds (or_default initialStreamsState state0) sid t)) \<union>
           {id \<in> set messages.
              \<exists>d. map_of details id = Some d \<and> md_type d = ''stream'' \<and>
                  md_stream_id d = sid \<and> md_topic d = t})) \<and>
   streamsReducer state0
     (EVENT_UPDATE_MESSAGE_FLAGS ''read'' False ''remove'' messages None) h =
     Inr (or_default initialStreamsState state0,
          [''Got update_message_flags/remove/read event without message_details.''], h)"
proof -
  let ?state = "or_default initialStreamsState state0"
  let ?c = "collectNewlyUnread details messages h"
  let ?s = "Map_map (Map_map List_sort) (fst ?c) (snd ?c)"
  let ?m = "mergeWith (mergeWith setUnion) ?state (fst ?s) (snd ?s)"
  have r: "streamsReducer state0
       (EVENT_UPDATE_MESSAGE_FLAGS ''read'' False ''remove'' messages (Some details)) h =
       Inr (fst ?m, [], snd ?m)"
    by (simp add: streamsReducer_def case_prod_beta Let_def)
  have eq: "streamsReducer state0
     (EVENT_UPDATE_MESSAGE_FLAGS ''read'' False ''remove'' messages (Some details)) h =
   streamsReducer state0
     (EVENT_UPDATE_MESSAGE_FLAGS ''read'' False ''remove''
        (filter (\<lambda>id. case map_of details id of
                         None \<Rightarrow> False | Some d \<Rightarrow> md_type d = ''stream'') messages)
        (Some details)) h"
    by (simp add: streamsReducer_def collectNewlyUnread_filter split: prod.split)
  have w: "streamsReducer state0
     (EVENT_UPDATE_MESSAGE_FLAGS ''read'' False ''remove'' messages None) h =
     Inr (or_default initialStreamsState state0,
          [''Got update_message_flags/remove/read event without message_details.''], h)"
    by (simp add: streamsReducer_def)
  have look: "unreadIds (fst ?m) sid t =
           (let group = sort (groupOf details
                  (filter (\<lambda>id. case map_of details id of
                                   None \<Rightarrow> False | Some d \<Rightarrow> md_type d = ''stream'')
                     messages) sid t)
            in if group = [] then unreadIds ?state sid t
               else case unreadIds ?state sid t of
                      None \<Rightarrow> Some group
                    | Some ids \<Rightarrow> Some (sorted_union ids group))" for sid t
    unfolding groupOf_routed Let_def by (rule unreadIds_remove_event)
  have routed: "set (groupOf details messages sid t) =
      {id \<in> set messages.
         \<exists>d. map_of details id = Some d \<and> md_type d = ''stream'' \<and>
             md_stream_id d = sid \<and> md_topic d = t}" for sid t
    by (auto simp: groupOf_def split: option.splits)
  have sets: "set (or_default [] (unreadIds (fst ?m) sid t)) =
      set (or_default [] (unreadIds ?state sid t)) \<union>
      {id \<in> set messages.
         \<exists>d. map_of details id = Some d \<and> md_type d = ''stream'' \<and>
             md_stream_id d = sid \<and> md_topic d = t}" for sid t
    unfolding routed [symmetric] look groupOf_routed
    by (cases "unreadIds ?state sid t") (auto simp: sort_eq_Nil Let_def)
  from look sets have "\<forall>sid t.
         unreadIds (fst ?m) sid t =
           (let group = sort (groupOf details
                  (filter (\<lambda>id. case map_of details id of
                                   None \<Rightarrow> False | Some d \<Rightarrow> md_type d = ''stream'')
                     messages) sid t)
            in if group = [] then unreadIds ?state sid t
               else case unreadIds ?state sid t of
                      None \<Rightarrow> Some group
                    | Some ids \<Rightarrow> Some (sorted_union ids group)) \<and>
         set (or_default [] (unreadIds (fst ?m) sid t)) =
           set (or_default [] (unreadIds ?state sid t)) \<union>
           {id \<in> set messages.
              \<exists>d. map_of details id = Some d \<and> md_type d = ''stream'' \<and>
                  md_stream_id d = sid \<and> md_topic d = t}"
    by blast
  with r have "\<exists>state' h'.
      streamsReducer state0
        (EVENT_UPDATE_MESSAGE_FLAGS ''read'' False ''remove'' messages (Some details)) h =
        Inr (state', [], h') \<and>
      (\<forall>sid t.
         unreadIds state' sid t =
           (let group = sort (groupOf details
                  (filter (\<lambda>id. case map_of details id of
                                   None \<Rightarrow> False | Some d \<Rightarrow> md_type d = ''stream'')
                     messages) sid t)
            in if group = [] then unreadIds ?state sid t
               else case unreadIds ?state sid t of
                      None \<Rightarrow> Some group
                    | Some ids \<Rightarrow> Some (sorted_union ids group)) \<and>
         set (or_default [] (unreadIds state' sid t)) =
           set (or_default [] (unreadIds ?state sid t)) \<union>
           {id \<in> set messages.
              \<exists>d. map_of details id = Some d \<and> md_type d = ''stream'' \<and>
                  md_stream_id d = sid \<and> md_topic d = t})"
    by blast
  with eq w show ?thesis by blast
qed

theorem remove_skips_unrouted_ids_witness:
  "streamsReducer
     (Some (IMap 5 [(1, IMap 2 [(''x'', IList 1 [5])]), (2, IMap 4 [(''b'', IList 3 [1])])]))
     (EVENT_UPDATE_MESSAGE_FLAGS ''read'' False ''remove'' [21, 99, 20, 30, 40]
        (Some [(20, \<lparr>md_type = ''stream'', md_stream_id = 1, md_topic = ''x''\<rparr>),
               (21, \<lparr>md_type = ''stream'', md_stream_id = 1, md_topic = ''x''\<rparr>),
               (30, \<lparr>md_type = ''private'', md_stream_id = 0, md_topic = ''''\<rparr>),
               (40, \<lparr>md_type = ''stream'', md_stream_id = 3, md_topic = ''c''\<rparr>)])) 6 =
     Inr (IMap 22 [(1, IMap 21 [(''x'', IList 20 [5, 20, 21])]),
                   (2, IMap 4 [(''b'', IList 3 [1])]),
                   (3, IMap 18 [(''c'', IList 17 [40])])], [], 23) \<and>
   streamsReducer
     (Some (IMap 5 [(1, IMap 2 [(''x'', IList 1 [5])]), (2, IMap 4 [(''b'', IList 3 [1])])]))
     (EVENT_UPDATE_MESSAGE_FLAGS ''read'' False ''remove'' [21, 20, 40]
        (Some [(20, \<lparr>md_type = ''stream'', md_stream_id = 1, md_topic = ''x''\<rparr>),
               (21, \<lparr>md_type = ''stream'', md_stream_id = 1, md_topic = ''x''\<rparr>),
               (30, \<lparr>md_type = ''private'', md_stream_id = 0, md_topic = ''''\<rparr>),
               (40, \<lparr>md_type = ''stream'', md_stream_id = 3, md_topic = ''c''\<rparr>)])) 6 =
     Inr (IMap 22 [(1, IMap 21 [(''x'', IList 20 [5, 20, 21])]),
                   (2, IMap 4 [(''b'', IList 3 [1])]),
                   (3, IMap 18 [(''c'', IList 17 [40])])], [], 23) \<and>
   unreadIds (IMap 22 [(1, IMap 21 [(''x'', IList 20 [5, 20, 21])]),
                       (2, IMap 4 [(''b'', IList 3 [1])]),
                       (3, IMap 18 [(''c'', IList 17 [40])])]) 1 ''x'' = Some [5, 20, 21] \<and>
   unreadIds (IMap 22 [(1, IMap 21 [(''x'', IList 20 [5, 20, 21])]),
                       (2, IMap 4 [(''b'', IList 3 [1])]),
                       (3, IMap 18 [(''c'', IList 17 [40])])]) 2 ''b'' = Some [1] \<and>
   unreadIds (IMap 22 [(1, IMap 21 [(''x'', IList 20 [5, 20, 21])]),
                       (2, IMap 4 [(''b'', IList 3 [1])]),
                       (3, IMap 18 [(''c'', IList 17 [40])])]) 3 ''c'' = Some [40]"
proof -
  let ?d = "[(20 :: int, \<lparr>md_type = ''stream'', md_stream_id = 1, md_topic = ''x''\<rparr>),
             (21, \<lparr>md_type = ''stream'', md_stream_id = 1, md_topic = ''x''\<rparr>),
             (30, \<lparr>md_type = ''private'', md_stream_id = 0, md_topic = ''''\<rparr>),
             (40, \<lparr>md_type = ''stream'', md_stream_id = 3, md_topic = ''c''\<rparr>)]"
  let ?s = "IMap 5 [(1, IMap 2 [(''x'', IList 1 [5])]), (2, IMap 4 [(''b'', IList 3 [1])])]
              :: UnreadStreamsState"
  let ?x = "IMap 22 [(1, IMap 21 [(''x'', IList 20 [5, 20, 21])]),
                     (2, IMap 4 [(''b'', IList 3 [1])]),
                     (3, IMap 18 [(''c'', IList 17 [40])])] :: UnreadStreamsState"
  let ?routed = "\<lambda>id. case map_of ?d id of
                         None \<Rightarrow> False | Some d \<Rightarrow> md_type d = ''stream''"
  have e: "streamsReducer (Some ?s)
     (EVENT_UPDATE_MESSAGE_FLAGS ''read'' False ''remove'' [21, 99, 20, 30, 40] (Some ?d)) 6 =
     Inr (?x, [], 23)"
    by code_simp
  have f: "filter ?routed [21, 99, 20, 30, 40] = [21, 20, 40]"
    by simp
  have g: "sort (groupOf ?d [21, 20, 40] 1 ''x'') = [20, 21]"
    "sort (groupOf ?d [21, 20, 40] 2 ''b'') = []"
    "sort (groupOf ?d [21, 20, 40] 3 ''c'') = [40]"
    by (simp_all add: groupOf_def)
  have i: "unreadIds (or_default initialStreamsState (Some ?s)) 1 ''x'' = Some [5]"
    "unreadIds (or_default initialStreamsState (Some ?s)) 2 ''b'' = Some [1]"
    "unreadIds (or_default initialStreamsState (Some ?s)) 3 ''c'' = None"
    by (simp_all add: unreadIds_def Map_get_def)
  have u: "sorted_union [5] [20, 21 :: int] = [5, 20, 21]"
    by simp
  note t = remove_skips_unrouted_ids [of "Some ?s" "[21, 99, 20, 30, 40]" ?d 6]
  from t have q: "streamsReducer (Some ?s)
     (EVENT_UPDATE_MESSAGE_FLAGS ''read'' False ''remove'' [21, 99, 20, 30, 40] (Some ?d)) 6 =
     streamsReducer (Some ?s)
     (EVENT_UPDATE_MESSAGE_FLAGS ''read'' False ''remove''
        (filter ?routed [21, 99, 20, 30, 40]) (Some ?d)) 6"
    by (rule conjunct1)
  from t obtain state' h' where
    r: "streamsReducer (Some ?s)
       (EVENT_UPDATE_MESSAGE_FLAGS ''read'' False ''remove'' [21, 99, 20, 30, 40] (Some ?d)) 6 =
       Inr (state', [], h')"
    and l: "\<forall>sid t.
         unreadIds state' sid t =
           (let group = sort (groupOf ?d (filter ?routed [21, 99, 20, 30, 40]) sid t)
            in if group = [] then unreadIds (or_default initialStreamsState (Some ?s)) sid t
               else case unreadIds (or_default initialStreamsState (Some ?s)) sid t of
                      None \<Rightarrow> Some group
                    | Some ids \<Rightarrow> Some (sorted_union ids group)) \<and>
         set (or_default [] (unreadIds state' sid t)) =
           set (or_default [] (unreadIds (or_default initialStreamsState (Some ?s)) sid t)) \<union>
           {id \<in> set [21, 99, 20, 30, 40].
              \<exists>d. map_of ?d id = Some d \<and> md_type d = ''stream'' \<and>
                  md_stream_id d = sid \<and> md_topic d = t}"
    by blast
  from r e have x: "state' = ?x" by simp
  from l have "unreadIds state' 1 ''x'' =
           (let group = sort (groupOf ?d (filter ?routed [21, 99, 20, 30, 40]) 1 ''x'')
            in if group = [] then unreadIds (or_default initialStreamsState (Some ?s)) 1 ''x''
               else case unreadIds (or_default initialStreamsState (Some ?s)) 1 ''x'' of
                      None \<Rightarrow> Some group
                    | Some ids \<Rightarrow> Some (sorted_union ids group))"
    and "unreadIds state' 2 ''b'' =
           (let group = sort (groupOf ?d (filter ?routed [21, 99, 20, 30, 40]) 2 ''b'')
            in if group = [] then unreadIds (or_default initialStreamsState (Some ?s)) 2 ''b''
               else case unreadIds (or_default initialStreamsState (Some ?s)) 2 ''b'' of
                      None \<Rightarrow> Some group
                    | Some ids \<Rightarrow> Some (sorted_union ids group))"
    and "unreadIds state' 3 ''c'' =
           (let group = sort (groupOf ?d (filter ?routed [21, 99, 20, 30, 40]) 3 ''c'')
            in if group = [] then unreadIds (or_default initialStreamsState (Some ?s)) 3 ''c''
               else case unreadIds (or_default initialStreamsState (Some ?s)) 3 ''c'' of
                      None \<Rightarrow> Some group
                    | Some ids \<Rightarrow> Some (sorted_union ids group))"
    by blast+
  then have "unreadIds ?x 1 ''x'' = Some [5, 20, 21]"
    and "unreadIds ?x 2 ''b'' = Some [1]"
    and "unreadIds ?x 3 ''c'' = Some [40]"
    unfolding f g i u x Let_def by simp_all
  moreover from q e have "streamsReducer (Some ?s)
     (EVENT_UPDATE_MESSAGE_FLAGS ''read'' False ''remove'' [21, 20, 40] (Some ?d)) 6 =
     Inr (?x, [], 23)"
    unfolding f by simp
  ultimately show ?thesis using e by blast
qed

subsection \<open>Predicates on the values of a map are kept by the operations\<close>

lemma mut_set_values:
  "\<forall>e\<in>set (fst mut). P (snd e) \<Longrightarrow> P v \<Longrightarrow> \<forall>e\<in>set (fst (mut_set k v mut)). P (snd e)"
  using set_update_subset [of k v "fst mut"] by (auto simp: mut_set_def)

lemma mut_delete_values:
  "\<forall>e\<in>set (fst mut). P (snd e) \<Longrightarrow> \<forall>e\<in>set (fst (mut_delete k mut)). P (snd e)"
  using set_delete_subset [of k "fst mut"] by (auto simp: mut_delete_def)

lemma mut_set_nonempty [simp]: "fst (mut_set k v mut) \<noteq> []"
  by (auto simp: mut_set_def mut_get_def)

lemma all_values_asImmutable:
  "all_values P m \<Longrightarrow> \<forall>e\<in>set (fst mut). P (snd e) \<Longrightarrow>
   all_values P (fst (asImmutable m mut h))"
  by (simp add: asImmutable_def all_values_iff)

lemma asImmutable_nonempty:
  "entries m \<noteq> [] \<Longrightarrow> fst (asImmutable m mut h) \<noteq> emptyMap \<Longrightarrow>
   entries (fst (asImmutable m mut h)) \<noteq> []"
  by (auto simp: asImmutable_def split: if_splits)

lemma asImmutable_proper:
  "entries m = [] \<longrightarrow> m = emptyMap \<Longrightarrow>
   entries (fst (asImmutable m mut h)) = [] \<longrightarrow> fst (asImmutable m mut h) = emptyMap"
  by (auto simp: asImmutable_def)

lemma all_values_updateAndPrune:
  assumes "all_values P m"
    and "fst (upd (Map_get m k) h) \<noteq> zero \<Longrightarrow> P (fst (upd (Map_get m k) h))"
  shows "all_values P (fst (updateAndPrune m zero k upd h))"
  using assms
  by (auto simp: updateAndPrune_def Let_def all_values_Map_set all_values_Map_delete
      split: prod.splits)

lemma proper_updateAndPrune:
  assumes "entries m = [] \<longrightarrow> m = emptyMap"
  shows "entries (fst (updateAndPrune m zero k upd h)) = [] \<longrightarrow>
         fst (updateAndPrune m zero k upd h) = emptyMap"
  using assms proper_Map_delete [OF assms]
  by (auto simp: updateAndPrune_def Let_def split: prod.splits)

lemma updateAllAndPrune_fold_values:
  assumes "\<forall>e\<in>set (fst mut). P (snd e)"
    and "\<And>v h'. v \<in> snd ` set es \<Longrightarrow> fst (upd v h') \<noteq> zero \<Longrightarrow> P (fst (upd v h'))"
  shows "\<forall>e\<in>set (fst (fst (fold (\<lambda>(key, value) (mapMut, h1).
          (case upd value h1 of (newValue, h2) \<Rightarrow>
             if newValue = zero then (mut_delete key mapMut, h2)
             else if newValue = value then (mapMut, h2)
             else (mut_set key newValue mapMut, h2))) es (mut, h)))). P (snd e)"
  using assms
proof (induction es arbitrary: mut h)
  case Nil
  then show ?case by simp
next
  case (Cons e es)
  obtain key v where e: "e = (key, v)" by (cases e)
  obtain nv h2 where u: "upd v h = (nv, h2)" by (cases "upd v h")
  have rest: "\<And>v h'. v \<in> snd ` set es \<Longrightarrow> fst (upd v h') \<noteq> zero \<Longrightarrow> P (fst (upd v h'))"
    by (rule Cons.prems(2)) auto
  have nv: "nv \<noteq> zero \<Longrightarrow> P nv"
    using Cons.prems(2) [of v h] u e by simp
  consider (z) "nv = zero" | (s) "nv \<noteq> zero" "nv = v" | (c) "nv \<noteq> zero" "nv \<noteq> v" by blast
  then show ?case
  proof cases
    case z
    from Cons.IH [OF mut_delete_values [OF Cons.prems(1)] rest, of key h2] z e u
    show ?thesis by simp
  next
    case s
    from Cons.IH [OF Cons.prems(1) rest, of h2] s e u show ?thesis by simp
  next
    case c
    from Cons.IH [OF mut_set_values [OF Cons.prems(1) nv [OF c(1)]] rest, of key h2] c e u
    show ?thesis by simp
  qed
qed

lemma all_values_updateAllAndPrune:
  assumes "all_values P m"
    and "\<And>v h'. v \<in> snd ` set (entries m) \<Longrightarrow> fst (upd v h') \<noteq> zero \<Longrightarrow> P (fst (upd v h'))"
  shows "all_values P (fst (updateAllAndPrune m zero upd h))"
proof -
  let ?step = "\<lambda>(key, value) (mapMut, h1).
          (case upd value h1 of (newValue, h2) \<Rightarrow>
             if newValue = zero then (mut_delete key mapMut, h2)
             else if newValue = value then (mapMut, h2)
             else (mut_set key newValue mapMut, h2))"
  obtain mut' h' where f: "fold ?step (entries m) (asMutable m, h) = (mut', h')"
    by (cases "fold ?step (entries m) (asMutable m, h)")
  have "\<forall>e\<in>set (fst (fst (fold ?step (entries m) (asMutable m, h)))). P (snd e)"
    using assms(1)
    by (intro updateAllAndPrune_fold_values assms(2)) (simp_all add: asMutable_def all_values_iff)
  then have "\<forall>e\<in>set (fst mut'). P (snd e)" by (simp add: f)
  from all_values_asImmutable [OF assms(1) this]
  show ?thesis
    by (simp add: updateAllAndPrune_def withMutations_def forEach_def f)
qed

lemma withMutations_nonempty:
  "entries m \<noteq> [] \<Longrightarrow> fst (withMutations m fn h) \<noteq> emptyMap \<Longrightarrow>
   entries (fst (withMutations m fn h)) \<noteq> []"
  unfolding withMutations_def
  by (cases "fn (asMutable m, h)") (simp add: asImmutable_nonempty)

lemma updateAllAndPrune_nonempty:
  "entries m \<noteq> [] \<Longrightarrow> fst (updateAllAndPrune m zero upd h) \<noteq> emptyMap \<Longrightarrow>
   entries (fst (updateAllAndPrune m zero upd h)) \<noteq> []"
  unfolding updateAllAndPrune_def by (rule withMutations_nonempty)

lemma all_values_updateIn:
  assumes "all_values P s"
    and "P (fst (Map_set (or_default emptyMap (Map_get s (fst p))) (snd p)
            (fst (upd (Map_get (or_default emptyMap (Map_get s (fst p))) (snd p)) h))
            (snd (upd (Map_get (or_default emptyMap (Map_get s (fst p))) (snd p)) h))))"
  shows "all_values P (fst (updateIn s p upd h))"
  using assms by (simp add: updateIn_def Let_def case_prod_beta all_values_Map_set)

lemma mergeWith_fold_values:
  assumes "\<forall>e\<in>set (fst mut). P (snd e)"
    and "\<forall>e\<in>set es. P (snd e)"
    and "\<And>a b h'. P a \<Longrightarrow> P b \<Longrightarrow> P (fst (merger a b h'))"
  shows "\<forall>e\<in>set (fst (fst (fold (\<lambda>(key, value) (mut, h1).
        (case mut_get mut key of
           None \<Rightarrow> (mut_set key value mut, h1)
         | Some oldVal \<Rightarrow>
             (case merger oldVal value h1 of (v, h2) \<Rightarrow> (mut_set key v mut, h2))))
      es (mut, h)))). P (snd e)"
  using assms(1,2)
proof (induction es arbitrary: mut h)
  case Nil
  then show ?case by simp
next
  case (Cons e es)
  obtain key b where e: "e = (key, b)" by (cases e)
  from Cons.prems(2) e have b: "P b" and rest: "\<forall>e\<in>set es. P (snd e)" by auto
  show ?case
  proof (cases "mut_get mut key")
    case None
    from Cons.IH [OF mut_set_values [OF Cons.prems(1) b] rest, of key h] None e
    show ?thesis by simp
  next
    case (Some a)
    obtain v h2 where mg: "merger a b h = (v, h2)" by (cases "merger a b h")
    from Some Cons.prems(1) have "P a"
      by (auto simp: mut_get_def dest!: map_of_SomeD)
    from assms(3) [OF this b, of h] mg have "P v" by simp
    from Cons.IH [OF mut_set_values [OF Cons.prems(1) this] rest, of key h2] Some e mg
    show ?thesis by simp
  qed
qed

lemma mergeWith_fold_nonempty:
  "es \<noteq> [] \<or> fst mut \<noteq> [] \<Longrightarrow>
   fst (fst (fold (\<lambda>(key, value) (mut, h1).
        (case mut_get mut key of
           None \<Rightarrow> (mut_set key value mut, h1)
         | Some oldVal \<Rightarrow>
             (case merger oldVal value h1 of (v, h2) \<Rightarrow> (mut_set key v mut, h2))))
      es (mut, h))) \<noteq> []"
proof (induction es arbitrary: mut h)
  case Nil
  then show ?case by simp
next
  case (Cons e es)
  obtain key b where e: "e = (key, b)" by (cases e)
  show ?case
  proof (cases "mut_get mut key")
    case None
    from Cons.IH [of "mut_set key b mut" h] None e show ?thesis by simp
  next
    case (Some a)
    obtain v h2 where mg: "merger a b h = (v, h2)" by (cases "merger a b h")
    from Cons.IH [of "mut_set key v mut" h2] Some e mg show ?thesis by simp
  qed
qed

lemma all_values_mergeWith:
  assumes "all_values P m" and "all_values P other"
    and "\<And>a b h'. P a \<Longrightarrow> P b \<Longrightarrow> P (fst (merger a b h'))"
  shows "all_values P (fst (mergeWith merger m other h))"
proof -
  let ?step = "\<lambda>(key, value) (mut, h1).
        (case mut_get mut key of
           None \<Rightarrow> (mut_set key value mut, h1)
         | Some oldVal \<Rightarrow>
             (case merger oldVal value h1 of (v, h2) \<Rightarrow> (mut_set key v mut, h2)))"
  obtain mut' h' where f: "fold ?step (entries other) (asMutable m, h) = (mut', h')"
    by (cases "fold ?step (entries other) (asMutable m, h)")
  have "\<forall>e\<in>set (fst (fst (fold ?step (entries other) (asMutable m, h)))). P (snd e)"
    using assms(1,2)
    by (intro mergeWith_fold_values assms(3)) (simp_all add: asMutable_def all_values_iff)
  then have "\<forall>e\<in>set (fst mut'). P (snd e)" by (simp add: f)
  from all_values_asImmutable [OF assms(1) this] assms(1,2)
  show ?thesis
    by (simp add: mergeWith_def withMutations_def forEach_def f)
qed

lemma mergeWith_nonempty:
  assumes "entries m \<noteq> [] \<or> entries other \<noteq> []"
  shows "entries (fst (mergeWith merger m other h)) \<noteq> []"
proof -
  let ?step = "\<lambda>(key, value) (mut, h1).
        (case mut_get mut key of
           None \<Rightarrow> (mut_set key value mut, h1)
         | Some oldVal \<Rightarrow>
             (case merger oldVal value h1 of (v, h2) \<Rightarrow> (mut_set key v mut, h2)))"
  obtain mut' h' where f: "fold ?step (entries other) (asMutable m, h) = (mut', h')"
    by (cases "fold ?step (entries other) (asMutable m, h)")
  have "entries other \<noteq> [] \<Longrightarrow>
        fst (fst (fold ?step (entries other) (asMutable m, h))) \<noteq> []"
    by (rule mergeWith_fold_nonempty) simp
  then have "entries other \<noteq> [] \<Longrightarrow> fst mut' \<noteq> []" by (simp add: f)
  then have "entries other \<noteq> [] \<Longrightarrow> entries m \<noteq> [] \<Longrightarrow>
             entries (fst (asImmutable m mut' h')) \<noteq> []"
    by (simp add: asImmutable_def)
  with assms show ?thesis
    by (auto simp: mergeWith_def withMutations_def forEach_def f)
qed

lemma Map_of_fold_values:
  "\<forall>e\<in>set (fst mut). P (snd e) \<Longrightarrow> \<forall>e\<in>set es. P (snd e) \<Longrightarrow>
   \<forall>e\<in>set (fst (fold (\<lambda>(k, v). mut_set k v) es mut)). P (snd e)"
proof (induction es arbitrary: mut)
  case Nil
  then show ?case by simp
next
  case (Cons e es)
  obtain k v where e: "e = (k, v)" by (cases e)
  from Cons.prems(2) e have "P v" "\<forall>e\<in>set es. P (snd e)" by auto
  from Cons.IH [OF mut_set_values [OF Cons.prems(1) this(1)] this(2), of k] e
  show ?case by simp
qed

lemma Map_of_fold_nonempty:
  "es \<noteq> [] \<or> fst mut \<noteq> [] \<Longrightarrow> fst (fold (\<lambda>(k, v). mut_set k v) es mut) \<noteq> []"
proof (induction es arbitrary: mut)
  case Nil
  then show ?case by simp
next
  case (Cons e es)
  obtain k v where e: "e = (k, v)" by (cases e)
  from Cons.IH [of "mut_set k v mut"] e show ?case by simp
qed

lemma Map_of_fold_consistent:
  "snd mut \<or> fst mut = es0 \<Longrightarrow>
   snd (fold (\<lambda>(k, v). mut_set k v) es mut) \<or> fst (fold (\<lambda>(k, v). mut_set k v) es mut) = es0"
proof (induction es arbitrary: mut)
  case Nil
  then show ?case by simp
next
  case (Cons e es)
  obtain k v where e: "e = (k, v)" by (cases e)
  from Cons.IH [OF mut_set_consistent [OF Cons.prems], of k v] e show ?case by simp
qed

lemma all_values_Map_of:
  assumes "\<forall>e\<in>set es. P (snd e)"
  shows "all_values P (fst (Map_of es h))"
proof -
  have "\<forall>e\<in>set (fst (fold (\<lambda>(k, v). mut_set k v) es (asMutable emptyMap))). P (snd e)"
    using assms by (intro Map_of_fold_values) (simp_all add: asMutable_def)
  then show ?thesis
    by (simp add: Map_of_def withMutations_def all_values_asImmutable)
qed

lemma entries_Map_of_nonempty:
  assumes "es \<noteq> []"
  shows "entries (fst (Map_of es h)) \<noteq> []"
proof -
  let ?mut = "fold (\<lambda>(k, v). mut_set k v) es (asMutable emptyMap)"
  have n: "fst ?mut \<noteq> []"
    using assms by (intro Map_of_fold_nonempty) simp
  have "snd ?mut \<or> fst ?mut = []"
    by (rule Map_of_fold_consistent) (simp add: asMutable_def)
  with n have "snd ?mut" by simp
  with n show ?thesis
    by (simp add: Map_of_def withMutations_def asImmutable_def)
qed

lemma Seq_map_nonempty: "es \<noteq> [] \<Longrightarrow> fst (Seq_map f es h) \<noteq> []"
  by (cases es) (simp_all add: case_prod_beta)

lemma all_values_Map_map:
  assumes "\<And>v h'. v \<in> snd ` set (entries m) \<Longrightarrow> P (fst (f v h'))"
  shows "all_values P (fst (Map_map f m h))"
proof -
  have "P (snd e')" if "e' \<in> set (fst (Seq_map f (entries m) h))" for e'
  proof -
    from set_Seq_map [OF that] obtain e h' where
      "e \<in> set (entries m)" "e' = (fst e, fst (f (snd e) h'))" by blast
    then show ?thesis using assms [of "snd e" h'] by simp
  qed
  then show ?thesis
    by (simp add: Map_map_def case_prod_beta all_values_Map_of)
qed

lemma entries_Map_map_nonempty:
  "entries m \<noteq> [] \<Longrightarrow> entries (fst (Map_map f m h)) \<noteq> []"
  by (simp add: Map_map_def case_prod_beta entries_Map_of_nonempty Seq_map_nonempty)

subsection \<open>No action leaves an empty branch\<close>

lemma nonEmptyTopics_emptyMap_values [simp]: "all_values (\<lambda>ids. items ids \<noteq> []) emptyMap"
  by simp

lemma fst_List_filterNot_empty [simp]:
  "fst (List_filterNot p xs h) = emptyList \<longleftrightarrow> filter (\<lambda>x. \<not> p x) (items xs) = []"
  by (simp add: List_filterNot_def)

lemma noEmptyBranch_deleteMessages:
  assumes "noEmptyBranch state"
  shows "noEmptyBranch (fst (deleteMessages state ids h))"
proof -
  let ?g = "\<lambda>perTopic h1.
          if truthy (List_find (\<lambda>id. id \<in> set ids) perTopic)
          then List_filterNot (\<lambda>id. id \<in> set ids) perTopic h1
          else (perTopic, h1)"
  have inner: "nonEmptyTopics (fst (updateAllAndPrune pm emptyList ?g h'))"
    if pm: "pm \<in> snd ` set (entries state)"
      and ne: "fst (updateAllAndPrune pm emptyList ?g h') \<noteq> emptyMap" for pm h'
  proof -
    from pm assms have p: "nonEmptyTopics pm"
      by (auto simp: noEmptyBranch_def all_values_iff)
    then have "entries (fst (updateAllAndPrune pm emptyList ?g h')) \<noteq> []"
      using ne by (intro updateAllAndPrune_nonempty) (simp_all add: nonEmptyTopics_def)
    moreover have "all_values (\<lambda>l. items l \<noteq> []) (fst (updateAllAndPrune pm emptyList ?g h'))"
    proof (rule all_values_updateAllAndPrune)
      from p show "all_values (\<lambda>l. items l \<noteq> []) pm" by (simp add: nonEmptyTopics_def)
    next
      fix v h''
      assume "v \<in> snd ` set (entries pm)" and n: "fst (?g v h'') \<noteq> emptyList"
      with p have "items v \<noteq> []" by (auto simp: nonEmptyTopics_def all_values_iff)
      with n show "items (fst (?g v h'')) \<noteq> []" by (simp split: if_splits)
    qed
    ultimately show ?thesis by (simp add: nonEmptyTopics_def)
  qed
  show ?thesis
    unfolding noEmptyBranch_def deleteMessages_def Let_def
    by (rule all_values_updateAllAndPrune)
      (use assms inner in \<open>simp_all add: noEmptyBranch_def\<close>)
qed

lemma nonEmptyTopics_proper: "nonEmptyTopics pm \<Longrightarrow> entries pm = [] \<longrightarrow> pm = emptyMap"
  by (simp add: nonEmptyTopics_def)

lemma noEmptyBranch_inner:
  assumes "noEmptyBranch state"
  shows "or_default emptyMap (Map_get state sid) = emptyMap \<or>
         nonEmptyTopics (or_default emptyMap (Map_get state sid))"
  using assms by (cases "Map_get state sid") (auto simp: noEmptyBranch_def dest: Map_get_value)

lemma noEmptyBranch_deleteMessagesIn:
  assumes "noEmptyBranch state"
  shows "noEmptyBranch (fst (deleteMessagesIn state sid t ids h))"
proof -
  let ?pm = "or_default emptyMap (Map_get state sid)"
  let ?F = "\<lambda>perTopic. List_filter (\<lambda>id. id \<notin> set ids) (or_default emptyList perTopic)"
  let ?nv = "fst (updateAndPrune ?pm emptyList t ?F h)"
  from noEmptyBranch_inner [OF assms, of sid]
  have proper: "entries ?pm = [] \<longrightarrow> ?pm = emptyMap"
    and vals: "all_values (\<lambda>l. items l \<noteq> []) ?pm"
    by (auto simp: nonEmptyTopics_def)
  have "nonEmptyTopics ?nv" if ne: "?nv \<noteq> emptyMap"
  proof -
    from proper_updateAndPrune [OF proper, of emptyList t ?F h] ne
    have "entries ?nv \<noteq> []" by blast
    moreover have "all_values (\<lambda>l. items l \<noteq> []) ?nv"
      by (rule all_values_updateAndPrune [OF vals]) simp
    ultimately show ?thesis by (simp add: nonEmptyTopics_def)
  qed
  then show ?thesis
    unfolding noEmptyBranch_def deleteMessagesIn_def
    by (intro all_values_updateAndPrune) (use assms in \<open>simp_all add: noEmptyBranch_def\<close>)
qed

lemma noEmptyBranch_updateIn:
  assumes "noEmptyBranch state"
    and "\<And>v h'. items (fst (upd v h')) \<noteq> []"
  shows "noEmptyBranch (fst (updateIn state p upd h))"
proof -
  let ?pm = "or_default emptyMap (Map_get state (fst p))"
  from noEmptyBranch_inner [OF assms(1), of "fst p"]
  have vals: "all_values (\<lambda>l. items l \<noteq> []) ?pm"
    by (auto simp: nonEmptyTopics_def)
  have "nonEmptyTopics (fst (Map_set ?pm k v h'))" if "items v \<noteq> []" for k v h'
    using vals that by (simp add: nonEmptyTopics_def all_values_Map_set)
  then show ?thesis
    unfolding noEmptyBranch_def
    by (intro all_values_updateIn) (use assms in \<open>simp_all add: noEmptyBranch_def\<close>)
qed

lemma sorted_union_eq_Nil [simp]: "sorted_union xs ys = [] \<longleftrightarrow> xs = [] \<and> ys = []"
  by (induction xs ys rule: sorted_union.induct) auto

lemma noEmptyBranch_collect_fold:
  assumes "noEmptyBranch acc"
  shows "noEmptyBranch (fst (fold (\<lambda>i (newlyUnreadState, h1).
        (case map_of details i of
           None \<Rightarrow> (newlyUnreadState, h1)
         | Some message \<Rightarrow>
             if md_type message = ''stream'' then
               updateIn newlyUnreadState (md_stream_id message, md_topic message)
                 (\<lambda>messages. List_push (or_default emptyList messages) [i]) h1
             else (newlyUnreadState, h1)))
       messages (acc, h)))"
  using assms
proof (induction messages arbitrary: acc h)
  case Nil
  then show ?case by simp
next
  case (Cons i ids)
  show ?case
  proof (cases "map_of details i")
    case None
    with Cons show ?thesis by simp
  next
    case (Some d)
    show ?thesis
    proof (cases "md_type d = ''stream''")
      case False
      with Some Cons show ?thesis by simp
    next
      case True
      let ?u = "updateIn acc (md_stream_id d, md_topic d)
                  (\<lambda>messages. List_push (or_default emptyList messages) [i]) h"
      have "noEmptyBranch (fst ?u)"
        by (rule noEmptyBranch_updateIn [OF Cons.prems]) simp
      from Cons.IH [OF this, of "snd ?u"] Some True show ?thesis by simp
    qed
  qed
qed

lemma noEmptyBranch_collectNewlyUnread:
  "noEmptyBranch (fst (collectNewlyUnread details messages h))"
  unfolding collectNewlyUnread_def
  by (rule noEmptyBranch_collect_fold) (simp add: noEmptyBranch_def)

lemma noEmptyBranch_Map_map_sort:
  assumes "noEmptyBranch s"
  shows "noEmptyBranch (fst (Map_map (Map_map List_sort) s h))"
  unfolding noEmptyBranch_def
proof (rule all_values_Map_map)
  fix v h'
  assume "v \<in> snd ` set (entries s)"
  with assms have v: "nonEmptyTopics v" by (auto simp: noEmptyBranch_def all_values_iff)
  have "all_values (\<lambda>l. items l \<noteq> []) (fst (Map_map List_sort v h'))"
  proof (rule all_values_Map_map)
    fix l h''
    assume "l \<in> snd ` set (entries v)"
    with v have "items l \<noteq> []" by (auto simp: nonEmptyTopics_def all_values_iff)
    then show "items (fst (List_sort l h'')) \<noteq> []" by (simp add: sort_eq_Nil)
  qed
  with v show "nonEmptyTopics (fst (Map_map List_sort v h'))"
    by (simp add: nonEmptyTopics_def entries_Map_map_nonempty)
qed

lemma noEmptyBranch_mergeWith:
  assumes "noEmptyBranch s" and "noEmptyBranch other"
  shows "noEmptyBranch (fst (mergeWith (mergeWith setUnion) s other h))"
  unfolding noEmptyBranch_def
proof (rule all_values_mergeWith)
  from assms show "all_values nonEmptyTopics s" "all_values nonEmptyTopics other"
    by (simp_all add: noEmptyBranch_def)
next
  fix a b h'
  assume a: "nonEmptyTopics a" and b: "nonEmptyTopics b"
  have "all_values (\<lambda>l. items l \<noteq> []) (fst (mergeWith setUnion a b h'))"
    by (rule all_values_mergeWith)
      (use a b in \<open>simp_all add: nonEmptyTopics_def items_setUnion\<close>)
  moreover have "entries (fst (mergeWith setUnion a b h')) \<noteq> []"
    by (rule mergeWith_nonempty) (use a in \<open>simp add: nonEmptyTopics_def\<close>)
  ultimately show "nonEmptyTopics (fst (mergeWith setUnion a b h'))"
    by (simp add: nonEmptyTopics_def)
qed

lemma update_append_fresh:
  "map_of dm k = None \<Longrightarrow> AList.update k x (dm @ [(k, d)]) = dm @ [(k, x)]"
  by (induction dm) (auto split: if_splits)

lemma collectByStream_fold_values:
  assumes "\<forall>e\<in>set byStream. snd e \<noteq> [] \<and> (\<forall>p\<in>set (snd e). R (items (snd p)))"
    and "\<forall>e\<in>set data. R (us_unread_message_ids e)"
  shows "\<forall>e\<in>set (fst (fold (\<lambda>e (byStream, h1).
        (case getOrCreate byStream [] (us_stream_id e) of (byStream1, array) \<Rightarrow>
           (case List_of (us_unread_message_ids e) h1 of (ids, h2) \<Rightarrow>
              (AList.update (us_stream_id e) (array @ [(us_topic e, ids)]) byStream1, h2))))
       data (byStream, h))). snd e \<noteq> [] \<and> (\<forall>p\<in>set (snd e). R (items (snd p)))"
  using assms
proof (induction data arbitrary: byStream h)
  case Nil
  then show ?case by simp
next
  case (Cons d data)
  let ?I = "\<lambda>bs. \<forall>e\<in>set bs. snd e \<noteq> [] \<and> (\<forall>p\<in>set (snd e). R (items (snd p)))"
  obtain ids h2 where l: "List_of (us_unread_message_ids d) h = (ids, h2)"
    by (cases "List_of (us_unread_message_ids d) h")
  then have "items ids = us_unread_message_ids d"
    using items_List_of [of "us_unread_message_ids d" h] by simp
  with Cons.prems(2) have r: "R (items ids)" by simp
  have step: "?I (AList.update (us_stream_id d)
      (snd (getOrCreate byStream [] (us_stream_id d)) @ [(us_topic d, ids)])
      (fst (getOrCreate byStream [] (us_stream_id d))))"
  proof (cases "map_of byStream (us_stream_id d)")
    case None
    with Cons.prems(1) r show ?thesis
      by (simp add: getOrCreate_def update_append_fresh)
  next
    case (Some arr)
    then have "(us_stream_id d, arr) \<in> set byStream" by (rule map_of_SomeD)
    with Cons.prems(1) have "\<forall>p\<in>set arr. R (items (snd p))" by auto
    with r have "\<forall>p\<in>set (arr @ [(us_topic d, ids)]). R (items (snd p))" by simp
    with Cons.prems(1)
    have "\<forall>e\<in>insert (us_stream_id d, arr @ [(us_topic d, ids)]) (set byStream).
            snd e \<noteq> [] \<and> (\<forall>p\<in>set (snd e). R (items (snd p)))"
      by simp
    with set_update_subset [of "us_stream_id d" "arr @ [(us_topic d, ids)]" byStream]
    have "?I (AList.update (us_stream_id d) (arr @ [(us_topic d, ids)]) byStream)"
      by blast
    with Some show ?thesis by (simp add: getOrCreate_def)
  qed
  from Cons.prems(2) have "\<forall>e\<in>set data. R (us_unread_message_ids e)" by simp
  from Cons.IH [OF step this, of h2] l show ?case
    by (simp add: case_prod_beta)
qed

lemma register_values:
  assumes "\<forall>e\<in>set (or_default [] snapshot). R (us_unread_message_ids e)"
    and "streamsReducer state0 (REGISTER_COMPLETE snapshot) h = Inr (state', warnings, h')"
  shows "all_values (\<lambda>pm. entries pm \<noteq> [] \<and> all_values (\<lambda>l. R (items l)) pm) state'"
proof -
  let ?c = "collectByStream (or_default [] snapshot) h"
  let ?p = "Seq_map Map_of (fst ?c) (snd ?c)"
  have s: "state' = fst (Map_of (fst ?p) (snd ?p))"
    using assms(2) by (auto simp: streamsReducer_def Let_def case_prod_beta)
  have c: "\<forall>e\<in>set (fst ?c). snd e \<noteq> [] \<and> (\<forall>p\<in>set (snd e). R (items (snd p)))"
    unfolding collectByStream_def
    by (rule collectByStream_fold_values) (use assms(1) in simp_all)
  have "entries (snd e') \<noteq> [] \<and> all_values (\<lambda>l. R (items l)) (snd e')"
    if "e' \<in> set (fst ?p)" for e'
  proof -
    from set_Seq_map [OF that] obtain e k where
      e: "e \<in> set (fst ?c)" "e' = (fst e, fst (Map_of (snd e) k))" by blast
    with c have "snd e \<noteq> []" "\<forall>p\<in>set (snd e). R (items (snd p))" by auto
    then show ?thesis
      by (simp add: e(2) entries_Map_of_nonempty all_values_Map_of)
  qed
  then show ?thesis unfolding s by (intro all_values_Map_of) blast
qed

lemma noEmptyBranch_initial [simp]: "noEmptyBranch initialStreamsState"
  by (simp add: noEmptyBranch_def initialStreamsState_def)

lemma noEmptyBranch_step:
  assumes "noEmptyBranch s" and "nonEmptySnapshot s a"
    and "streamsReducer (Some s) a h = Inr (s', w, h')"
  shows "noEmptyBranch s'"
proof (cases a)
  case RESET_ACCOUNT_DATA
  with assms(3) show ?thesis by (auto simp: streamsReducer_def)
next
  case (REGISTER_COMPLETE snapshot)
  with assms(2) have "\<forall>e\<in>set (or_default [] snapshot). us_unread_message_ids e \<noteq> []"
    by (simp add: nonEmptySnapshot_def list_all_iff)
  from register_values [where R = "\<lambda>xs. xs \<noteq> []", OF this] assms(3) REGISTER_COMPLETE
  show ?thesis by (simp add: noEmptyBranch_def nonEmptyTopics_def [abs_def])
next
  case MESSAGE_FETCH_COMPLETE
  with assms(1,3) show ?thesis by (auto simp: streamsReducer_def)
next
  case (EVENT_NEW_MESSAGE m)
  have "noEmptyBranch (fst (updateIn s (msg_stream_id m, msg_subject m)
      (\<lambda>perTopic. List_push (or_default emptyList perTopic) [msg_id m]) h))"
    by (rule noEmptyBranch_updateIn [OF assms(1)]) simp
  with assms(1,3) EVENT_NEW_MESSAGE show ?thesis
    by (auto simp: streamsReducer_def case_prod_beta split: if_splits option.splits)
next
  case (EVENT_MESSAGE_DELETE ids)
  with assms(3) noEmptyBranch_deleteMessages [OF assms(1), of ids h] show ?thesis
    by (auto simp: streamsReducer_def case_prod_beta)
next
  case (EVENT_UPDATE_MESSAGE_FLAGS flag all' op' messages details)
  have m: "noEmptyBranch (fst (mergeWith (mergeWith setUnion) s
      (fst (Map_map (Map_map List_sort) (fst (collectNewlyUnread d messages h))
         (snd (collectNewlyUnread d messages h))))
      (snd (Map_map (Map_map List_sort) (fst (collectNewlyUnread d messages h))
         (snd (collectNewlyUnread d messages h))))))" for d
    by (intro noEmptyBranch_mergeWith assms(1) noEmptyBranch_Map_map_sort
        noEmptyBranch_collectNewlyUnread)
  from assms(1,3) EVENT_UPDATE_MESSAGE_FLAGS m
    noEmptyBranch_deleteMessages [OF assms(1), of messages h]
  show ?thesis
    by (auto simp: streamsReducer_def case_prod_beta split: if_splits option.splits)
next
  case (EVENT_UPDATE_MESSAGE ids move)
  show ?thesis
  proof (cases move)
    case None
    with assms(1,3) EVENT_UPDATE_MESSAGE show ?thesis by (auto simp: streamsReducer_def)
  next
    case (Some mv)
    let ?f = "List_filter (\<lambda>id. id \<in> set ids)
                (getIn s (orig_stream_id mv, orig_topic mv) emptyList) h"
    let ?d = "deleteMessagesIn s (orig_stream_id mv) (orig_topic mv) ids (snd ?f)"
    let ?upd = "\<lambda>messages h3.
        case List_push (or_default emptyList messages) (items (fst ?f)) h3 of
          (pushed, h4) \<Rightarrow> List_sort pushed h4"
    show ?thesis
    proof (cases "List_size (fst ?f) = 0")
      case True
      with assms(1,3) EVENT_UPDATE_MESSAGE Some show ?thesis
        by (auto simp: streamsReducer_def case_prod_beta)
    next
      case False
      then have ne: "items (fst ?f) \<noteq> []" by (simp add: List_size_def)
      have "noEmptyBranch (fst (updateIn (fst ?d) (new_stream_id mv, new_topic mv) ?upd
          (snd ?d)))"
        by (rule noEmptyBranch_updateIn [OF noEmptyBranch_deleteMessagesIn [OF assms(1)]])
          (use ne in \<open>simp add: case_prod_beta sort_eq_Nil\<close>)
      with False assms(3) EVENT_UPDATE_MESSAGE Some show ?thesis
        by (auto simp: streamsReducer_def case_prod_beta)
    qed
  qed
next
  case OTHER_ACTION
  with assms(1,3) show ?thesis by (auto simp: streamsReducer_def)
qed

lemma noEmptyBranch_applyActions:
  "noEmptyBranch s \<Longrightarrow> applyActions nonEmptySnapshot s h actions = Some (s', h') \<Longrightarrow>
   noEmptyBranch s'"
proof (induction actions arbitrary: s h)
  case Nil
  then show ?case by simp
next
  case (Cons a actions)
  from Cons.prems(2) obtain s1 w h1 where
    pre: "nonEmptySnapshot s a" and
    r: "streamsReducer (Some s) a h = Inr (s1, w, h1)" and
    rest: "applyActions nonEmptySnapshot s1 h1 actions = Some (s', h')"
    by (auto split: if_splits sum.splits)
  from noEmptyBranch_step [OF Cons.prems(1) pre r] rest show ?case
    by (rule Cons.IH)
qed

text \<open>
  Claim C3, as amended. In every state reached from the empty index by actions whose
  registration snapshots carry no empty id list, no stream holds an empty topic map and
  no topic holds an empty id list. The instance proved after it is the reconciliation
  scenario: after the last deletion the index is the empty map, not a map with empty
  branches.
\<close>

theorem no_empty_branch_reachable:
  assumes "applyActions nonEmptySnapshot initialStreamsState h actions = Some (state, h')"
  shows "noEmptyBranch state \<and>
         (\<forall>streamId perStream. Map_get state streamId = Some perStream \<longrightarrow>
            entries perStream \<noteq> []) \<and>
         (\<forall>streamId topic. unreadIds state streamId topic \<noteq> Some [])"
proof -
  have n: "noEmptyBranch state"
    by (rule noEmptyBranch_applyActions [OF _ assms]) simp
  have 1: "entries perStream \<noteq> []" if "Map_get state streamId = Some perStream"
    for streamId perStream
    using Map_get_value [OF that, of nonEmptyTopics] n
    by (simp add: noEmptyBranch_def nonEmptyTopics_def)
  have 2: "unreadIds state streamId topic \<noteq> Some []" for streamId topic
  proof
    assume "unreadIds state streamId topic = Some []"
    then obtain perStream ids where
      p: "Map_get state streamId = Some perStream" and
      l: "Map_get perStream topic = Some ids" and e: "items ids = []"
      by (auto simp: unreadIds_def split: option.splits)
    from Map_get_value [OF p, of nonEmptyTopics] n
    have "all_values (\<lambda>ids. items ids \<noteq> []) perStream"
      by (simp add: noEmptyBranch_def nonEmptyTopics_def)
    from Map_get_value [OF l this] e show False by simp
  qed
  from n 1 2 show ?thesis by blast
qed

theorem no_empty_branch_reachable_witness:
  "applyActions nonEmptySnapshot initialStreamsState 1
     [REGISTER_COMPLETE
        (Some [\<lparr>us_stream_id = 1, us_topic = ''a'', us_unread_message_ids = [5, 9]\<rparr>]),
      EVENT_NEW_MESSAGE \<lparr>msg_type = ''stream'', msg_stream_id = 1, msg_subject = ''a'',
                          msg_id = 12, msg_flags = Some []\<rparr>,
      EVENT_MESSAGE_DELETE [9]] =
     Some (IMap 9 [(1, IMap 8 [(''a'', IList 7 [5, 12])])], 10) \<and>
   noEmptyBranch (IMap 9 [(1, IMap 8 [(''a'', IList 7 [5, 12])])]) \<and>
   applyActions nonEmptySnapshot initialStreamsState 1
     [REGISTER_COMPLETE
        (Some [\<lparr>us_stream_id = 1, us_topic = ''a'', us_unread_message_ids = [5, 9]\<rparr>]),
      EVENT_NEW_MESSAGE \<lparr>msg_type = ''stream'', msg_stream_id = 1, msg_subject = ''a'',
                          msg_id = 12, msg_flags = Some []\<rparr>,
      EVENT_MESSAGE_DELETE [9],
      EVENT_MESSAGE_DELETE [5, 12]] = Some (emptyMap, 10)"
proof -
  have a: "applyActions nonEmptySnapshot initialStreamsState 1
     [REGISTER_COMPLETE
        (Some [\<lparr>us_stream_id = 1, us_topic = ''a'', us_unread_message_ids = [5, 9]\<rparr>]),
      EVENT_NEW_MESSAGE \<lparr>msg_type = ''stream'', msg_stream_id = 1, msg_subject = ''a'',
                          msg_id = 12, msg_flags = Some []\<rparr>,
      EVENT_MESSAGE_DELETE [9]] =
     Some (IMap 9 [(1, IMap 8 [(''a'', IList 7 [5, 12])])], 10)"
    by code_simp
  have b: "applyActions nonEmptySnapshot initialStreamsState 1
     [REGISTER_COMPLETE
        (Some [\<lparr>us_stream_id = 1, us_topic = ''a'', us_unread_message_ids = [5, 9]\<rparr>]),
      EVENT_NEW_MESSAGE \<lparr>msg_type = ''stream'', msg_stream_id = 1, msg_subject = ''a'',
                          msg_id = 12, msg_flags = Some []\<rparr>,
      EVENT_MESSAGE_DELETE [9],
      EVENT_MESSAGE_DELETE [5, 12]] = Some (emptyMap, 10)"
    by code_simp
  from no_empty_branch_reachable [OF a] a b show ?thesis by blast
qed

text \<open>
  Claim C3 as stated, for snapshots with any id lists, fails: the registration case
  stores the lists of the payload as they are, and an empty one stays in the index.
\<close>

theorem empty_snapshot_list_counterexample:
  "applyActions anyAction initialStreamsState 1
     [REGISTER_COMPLETE
        (Some [\<lparr>us_stream_id = 1, us_topic = ''a'', us_unread_message_ids = []\<rparr>])] =
     Some (IMap 2 [(1, IMap 1 [(''a'', emptyList)])], 3) \<and>
   unreadIds (IMap 2 [(1, IMap 1 [(''a'', emptyList)])]) 1 ''a'' = Some [] \<and>
   \<not> noEmptyBranch (IMap 2 [(1, IMap 1 [(''a'', emptyList)])])"
  by code_simp

subsection \<open>Sortedness is kept under the preconditions\<close>

lemma strict_filter:
  "sorted_wrt (<) xs \<and> distinct xs \<Longrightarrow>
   sorted_wrt (<) (filter p xs) \<and> distinct (filter p (xs :: int list))"
  by (simp add: sorted_wrt_filter)

lemma strict_sort: "distinct xs \<Longrightarrow> sorted_wrt (<) (sort xs) \<and> distinct (sort (xs :: int list))"
  by (simp add: strict_sorted_iff)

lemma strict_sorted_union:
  "sorted_wrt (<) xs \<and> distinct xs \<Longrightarrow> sorted_wrt (<) ys \<and> distinct ys \<Longrightarrow>
   sorted_wrt (<) (sorted_union xs ys) \<and> distinct (sorted_union xs ys)"
  using sorted_union_strict [of xs ys] by (simp add: strict_sorted_iff)

lemma strictlyAscending_initial [simp]: "strictlyAscending initialStreamsState"
  by (simp add: strictlyAscending_def initialStreamsState_def)

lemma ascendingTopics_emptyMap [simp]: "ascendingTopics emptyMap"
  by (simp add: ascendingTopics_def)

lemma strictlyAscending_inner:
  "strictlyAscending state \<Longrightarrow> ascendingTopics (or_default emptyMap (Map_get state sid))"
  by (cases "Map_get state sid") (auto simp: strictlyAscending_def dest: Map_get_value)

lemma strictlyAscending_lookup:
  assumes "strictlyAscending state"
  shows "sorted_wrt (<) (or_default [] (unreadIds state sid t)) \<and>
         distinct (or_default [] (unreadIds state sid t))"
proof (cases "Map_get (or_default emptyMap (Map_get state sid)) t")
  case None
  then show ?thesis by (simp add: unreadIds_alt)
next
  case (Some l)
  from Map_get_value [OF Some] strictlyAscending_inner [OF assms, of sid]
  have "sorted_wrt (<) (items l) \<and> distinct (items l)"
    by (simp add: ascendingTopics_def)
  with Some show ?thesis by (simp add: unreadIds_alt)
qed

lemma strictlyAscending_deleteMessages:
  assumes "strictlyAscending state"
  shows "strictlyAscending (fst (deleteMessages state ids h))"
proof -
  let ?g = "\<lambda>perTopic h1.
          if truthy (List_find (\<lambda>id. id \<in> set ids) perTopic)
          then List_filterNot (\<lambda>id. id \<in> set ids) perTopic h1
          else (perTopic, h1)"
  have inner: "ascendingTopics (fst (updateAllAndPrune pm emptyList ?g h'))"
    if pm: "pm \<in> snd ` set (entries state)" for pm h'
    unfolding ascendingTopics_def
  proof (rule all_values_updateAllAndPrune)
    from pm assms show p: "all_values (\<lambda>l. sorted_wrt (<) (items l) \<and> distinct (items l)) pm"
      by (auto simp: strictlyAscending_def ascendingTopics_def all_values_iff)
    fix v h''
    assume "v \<in> snd ` set (entries pm)"
    with p have "sorted_wrt (<) (items v) \<and> distinct (items v)"
      by (auto simp: all_values_iff)
    then show "sorted_wrt (<) (items (fst (?g v h''))) \<and> distinct (items (fst (?g v h'')))"
      by (simp add: sorted_wrt_filter)
  qed
  show ?thesis
    unfolding strictlyAscending_def deleteMessages_def Let_def
    by (rule all_values_updateAllAndPrune)
      (use assms inner in \<open>simp_all add: strictlyAscending_def\<close>)
qed

lemma strictlyAscending_deleteMessagesIn:
  assumes "strictlyAscending state"
  shows "strictlyAscending (fst (deleteMessagesIn state sid t ids h))"
proof -
  let ?pm = "or_default emptyMap (Map_get state sid)"
  let ?F = "\<lambda>perTopic. List_filter (\<lambda>id. id \<notin> set ids) (or_default emptyList perTopic)"
  from strictlyAscending_inner [OF assms, of sid]
  have vals: "all_values (\<lambda>l. sorted_wrt (<) (items l) \<and> distinct (items l)) ?pm"
    by (simp add: ascendingTopics_def)
  have "sorted_wrt (<) (or_default [] (map_option items (Map_get ?pm t))) \<and>
        distinct (or_default [] (map_option items (Map_get ?pm t)))"
    using strictlyAscending_lookup [OF assms, of sid t] by (simp add: unreadIds_alt)
  then have "sorted_wrt (<) (items (fst (?F (Map_get ?pm t) h))) \<and>
        distinct (items (fst (?F (Map_get ?pm t) h)))"
    by (simp add: sorted_wrt_filter)
  then have "ascendingTopics (fst (updateAndPrune ?pm emptyList t ?F h))"
    unfolding ascendingTopics_def by (intro all_values_updateAndPrune vals)
  then show ?thesis
    unfolding strictlyAscending_def deleteMessagesIn_def
    by (intro all_values_updateAndPrune) (use assms in \<open>simp_all add: strictlyAscending_def\<close>)
qed

lemma strictlyAscending_updateIn:
  assumes "strictlyAscending state"
    and "sorted_wrt (<) (items (fst (upd
            (Map_get (or_default emptyMap (Map_get state (fst p))) (snd p)) h))) \<and>
         distinct (items (fst (upd
            (Map_get (or_default emptyMap (Map_get state (fst p))) (snd p)) h)))"
  shows "strictlyAscending (fst (updateIn state p upd h))"
proof -
  let ?pm = "or_default emptyMap (Map_get state (fst p))"
  from strictlyAscending_inner [OF assms(1), of "fst p"]
  have vals: "all_values (\<lambda>l. sorted_wrt (<) (items l) \<and> distinct (items l)) ?pm"
    by (simp add: ascendingTopics_def)
  have "ascendingTopics (fst (Map_set ?pm k v h'))"
    if "sorted_wrt (<) (items v) \<and> distinct (items v)" for k v h'
    using vals that by (simp add: ascendingTopics_def all_values_Map_set)
  then show ?thesis
    unfolding strictlyAscending_def
    by (intro all_values_updateIn) (use assms in \<open>simp_all add: strictlyAscending_def\<close>)
qed

lemma strictlyAscending_mergeWith:
  assumes "strictlyAscending s" and "strictlyAscending other"
  shows "strictlyAscending (fst (mergeWith (mergeWith setUnion) s other h))"
  unfolding strictlyAscending_def
proof (rule all_values_mergeWith)
  from assms show "all_values ascendingTopics s" "all_values ascendingTopics other"
    by (simp_all add: strictlyAscending_def)
next
  fix a b h'
  assume "ascendingTopics a" and "ascendingTopics b"
  then show "ascendingTopics (fst (mergeWith setUnion a b h'))"
    unfolding ascendingTopics_def
    by (rule all_values_mergeWith) (simp add: items_setUnion strict_sorted_union)
qed

lemma collectNewlyUnread_items:
  assumes "e \<in> set (entries (fst (collectNewlyUnread details messages h)))"
    and "p \<in> set (entries (snd e))"
  shows "items (snd p) = groupOf details messages (fst e) (fst p)"
proof -
  let ?nu = "fst (collectNewlyUnread details messages h)"
  note d = distinct_keys_collectNewlyUnread [of details messages h]
  from d assms(1) have 1: "Map_get ?nu (fst e) = Some (snd e)"
    by (simp add: Map_get_def)
  from d assms(1) have "distinct (map fst (entries (snd e)))"
    by (auto simp: all_values_iff)
  with assms(2) have 2: "Map_get (snd e) (fst p) = Some (snd p)"
    by (simp add: Map_get_def)
  from 1 2 have "unreadIds ?nu (fst e) (fst p) = Some (items (snd p))"
    by (simp add: unreadIds_def)
  then show ?thesis
    by (simp add: unreadIds_collectNewlyUnread split: if_splits)
qed

lemma strictlyAscending_sorted_groups:
  assumes "distinct messages"
  shows "strictlyAscending (fst (Map_map (Map_map List_sort)
           (fst (collectNewlyUnread details messages h)) h1))"
  unfolding strictlyAscending_def
proof (rule all_values_Map_map)
  fix v h'
  assume "v \<in> snd ` set (entries (fst (collectNewlyUnread details messages h)))"
  then obtain e where e: "e \<in> set (entries (fst (collectNewlyUnread details messages h)))"
    and v: "v = snd e" by blast
  show "ascendingTopics (fst (Map_map List_sort v h'))"
    unfolding ascendingTopics_def
  proof (rule all_values_Map_map)
    fix l h''
    assume "l \<in> snd ` set (entries v)"
    then obtain p where "p \<in> set (entries (snd e))" and l: "l = snd p"
      using v by blast
    from collectNewlyUnread_items [OF e this(1)] assms l
    have "distinct (items l)" by (simp add: groupOf_def)
    then show "sorted_wrt (<) (items (fst (List_sort l h''))) \<and>
               distinct (items (fst (List_sort l h'')))"
      by (simp add: strict_sorted_iff)
  qed
qed

lemma items_subset_allIds:
  assumes "Map_get state sid = Some pm" and "Map_get pm t = Some l"
  shows "set (items l) \<subseteq> set (allIds state)"
proof -
  from assms have "(sid, pm) \<in> set (entries state)" "(t, l) \<in> set (entries pm)"
    by (auto simp: Map_get_def dest: map_of_SomeD)
  then show ?thesis
    unfolding allIds_def set_concat
    by (auto intro!: bexI [of _ "(sid, pm)"] bexI [of _ "(t, l)"])
qed

lemma strictlyAscending_new_message:
  assumes "strictlyAscending state" and "list_all (\<lambda>i. i < new) (allIds state)"
  shows "strictlyAscending (fst (updateIn state (sid, t)
           (\<lambda>perTopic. List_push (or_default emptyList perTopic) [new]) h))"
proof (rule strictlyAscending_updateIn [OF assms(1)])
  let ?v = "Map_get (or_default emptyMap (Map_get state (fst (sid, t)))) (snd (sid, t))"
  have s: "sorted_wrt (<) (or_default [] (map_option items ?v)) \<and>
           distinct (or_default [] (map_option items ?v))"
    using strictlyAscending_lookup [OF assms(1), of sid t] by (simp add: unreadIds_alt)
  have b: "\<forall>x\<in>set (or_default [] (map_option items ?v)). x < new"
  proof (cases "Map_get state sid")
    case None
    then show ?thesis by simp
  next
    case pm: (Some pm)
    show ?thesis
    proof (cases "Map_get pm t")
      case None
      with pm show ?thesis by simp
    next
      case (Some l)
      from items_subset_allIds [OF pm Some] assms(2) pm Some show ?thesis
        by (auto simp: list_all_iff)
    qed
  qed
  from s b show "sorted_wrt (<) (items (fst (List_push (or_default emptyList ?v) [new] h))) \<and>
        distinct (items (fst (List_push (or_default emptyList ?v) [new] h)))"
    by (auto simp: sorted_wrt_append)
qed

lemma strictlyAscending_move:
  assumes "strictlyAscending state"
    and "noRepeatedIds state (EVENT_UPDATE_MESSAGE ids (Some mv))"
  shows "strictlyAscending (fst (updateIn
      (fst (deleteMessagesIn state (orig_stream_id mv) (orig_topic mv) ids h1))
      (new_stream_id mv, new_topic mv)
      (\<lambda>messages h3.
         case List_push (or_default emptyList messages)
                (items (fst (List_filter (\<lambda>id. id \<in> set ids)
                   (getIn state (orig_stream_id mv, orig_topic mv) emptyList) h))) h3 of
           (pushed, h4) \<Rightarrow> List_sort pushed h4) h2))"
proof (rule strictlyAscending_updateIn [OF strictlyAscending_deleteMessagesIn [OF assms(1)]])
  let ?s1 = "fst (deleteMessagesIn state (orig_stream_id mv) (orig_topic mv) ids h1)"
  let ?origin = "or_default [] (unreadIds state (orig_stream_id mv) (orig_topic mv))"
  let ?matching = "filter (\<lambda>id. id \<in> set ids) ?origin"
  let ?dest = "or_default [] (unreadIds ?s1 (new_stream_id mv) (new_topic mv))"
  let ?v = "Map_get (or_default emptyMap (Map_get ?s1 (fst (new_stream_id mv, new_topic mv))))
              (snd (new_stream_id mv, new_topic mv))"
  have v: "or_default [] (map_option items
      (Map_get (or_default emptyMap (Map_get ?s1 (new_stream_id mv))) (new_topic mv))) = ?dest"
    by (simp add: unreadIds_alt)
  have d1: "distinct ?dest"
    using strictlyAscending_lookup
      [OF strictlyAscending_deleteMessagesIn [OF assms(1)], of _ _ _ _ "new_stream_id mv"]
    by blast
  have d2: "distinct ?matching"
    using strictlyAscending_lookup [OF assms(1), of "orig_stream_id mv" "orig_topic mv"]
    by simp
  have disj: "set ?dest \<inter> set ?matching = {}"
  proof (cases "orig_stream_id mv = new_stream_id mv \<and> orig_topic mv = new_topic mv")
    case True
    then show ?thesis by (auto simp: unreadIds_deleteMessagesIn)
  next
    case False
    with assms(2) have "\<forall>x\<in>set ?matching.
        x \<notin> set (or_default [] (unreadIds state (new_stream_id mv) (new_topic mv)))"
      by (simp add: noRepeatedIds_def list_all_iff items_getIn)
    with False show ?thesis by (auto simp: unreadIds_deleteMessagesIn)
  qed
  from d1 d2 disj have "distinct (?dest @ ?matching)" by simp
  then have "sorted_wrt (<) (sort (?dest @ ?matching)) \<and> distinct (sort (?dest @ ?matching))"
    by (rule strict_sort)
  then show "sorted_wrt (<) (items (fst (case List_push (or_default emptyList ?v)
                (items (fst (List_filter (\<lambda>id. id \<in> set ids)
                   (getIn state (orig_stream_id mv, orig_topic mv) emptyList) h)))
                h2 of
           (pushed, h4) \<Rightarrow> List_sort pushed h4))) \<and>
     distinct (items (fst (case List_push (or_default emptyList ?v)
                (items (fst (List_filter (\<lambda>id. id \<in> set ids)
                   (getIn state (orig_stream_id mv, orig_topic mv) emptyList) h)))
                h2 of
           (pushed, h4) \<Rightarrow> List_sort pushed h4)))"
    by (simp add: case_prod_beta items_getIn v del: or_default_simps)
qed

lemma strictlyAscending_step:
  assumes "strictlyAscending s" and "sortednessPrecondition s a"
    and "streamsReducer (Some s) a h = Inr (s', w, h')"
  shows "strictlyAscending s'"
proof (cases a)
  case RESET_ACCOUNT_DATA
  with assms(3) show ?thesis by (auto simp: streamsReducer_def)
next
  case (REGISTER_COMPLETE snapshot)
  with assms(2) have "\<forall>e\<in>set (or_default [] snapshot).
      sorted_wrt (<) (us_unread_message_ids e) \<and> distinct (us_unread_message_ids e)"
    by (simp add: sortednessPrecondition_def statedPrecondition_def list_all_iff
        strict_sorted_iff)
  from register_values [where R = "\<lambda>xs. sorted_wrt (<) xs \<and> distinct xs", OF this]
    assms(3) REGISTER_COMPLETE
  have "all_values (\<lambda>pm. entries pm \<noteq> [] \<and>
      all_values (\<lambda>l. sorted_wrt (<) (items l) \<and> distinct (items l)) pm) s'"
    by simp
  then show ?thesis
    by (simp add: strictlyAscending_def ascendingTopics_def all_values_iff)
next
  case MESSAGE_FETCH_COMPLETE
  with assms(1,3) show ?thesis by (auto simp: streamsReducer_def)
next
  case (EVENT_NEW_MESSAGE m)
  with assms(2) have "list_all (\<lambda>i. i < msg_id m) (allIds s)"
    by (simp add: sortednessPrecondition_def statedPrecondition_def)
  from strictlyAscending_new_message [OF assms(1) this, of "msg_stream_id m" "msg_subject m" h]
    assms(1,3) EVENT_NEW_MESSAGE
  show ?thesis
    by (auto simp: streamsReducer_def case_prod_beta split: if_splits option.splits)
next
  case (EVENT_MESSAGE_DELETE ids)
  with assms(3) strictlyAscending_deleteMessages [OF assms(1), of ids h] show ?thesis
    by (auto simp: streamsReducer_def case_prod_beta)
next
  case (EVENT_UPDATE_MESSAGE_FLAGS flag all' op' messages details)
  with assms(2) have d: "distinct messages"
    by (simp add: sortednessPrecondition_def noRepeatedIds_def)
  have m: "strictlyAscending (fst (mergeWith (mergeWith setUnion) s
      (fst (Map_map (Map_map List_sort) (fst (collectNewlyUnread d messages h))
         (snd (collectNewlyUnread d messages h))))
      (snd (Map_map (Map_map List_sort) (fst (collectNewlyUnread d messages h))
         (snd (collectNewlyUnread d messages h))))))" for d
    by (intro strictlyAscending_mergeWith assms(1) strictlyAscending_sorted_groups d)
  from assms(1,3) EVENT_UPDATE_MESSAGE_FLAGS m
    strictlyAscending_deleteMessages [OF assms(1), of messages h]
  show ?thesis
    by (auto simp: streamsReducer_def case_prod_beta split: if_splits option.splits)
next
  case (EVENT_UPDATE_MESSAGE ids move)
  show ?thesis
  proof (cases move)
    case None
    with assms(1,3) EVENT_UPDATE_MESSAGE show ?thesis by (auto simp: streamsReducer_def)
  next
    case (Some mv)
    from assms(2) EVENT_UPDATE_MESSAGE Some
    have "noRepeatedIds s (EVENT_UPDATE_MESSAGE ids (Some mv))"
      by (simp add: sortednessPrecondition_def)
    from strictlyAscending_move [OF assms(1) this] assms(1,3) EVENT_UPDATE_MESSAGE Some
    show ?thesis
      by (auto simp: streamsReducer_def case_prod_beta split: if_splits)
  qed
next
  case OTHER_ACTION
  with assms(1,3) show ?thesis by (auto simp: streamsReducer_def)
qed

lemma strictlyAscending_applyActions:
  "strictlyAscending s \<Longrightarrow>
   applyActions sortednessPrecondition s h actions = Some (s', h') \<Longrightarrow>
   strictlyAscending s'"
proof (induction actions arbitrary: s h)
  case Nil
  then show ?case by simp
next
  case (Cons a actions)
  from Cons.prems(2) obtain s1 w h1 where
    pre: "sortednessPrecondition s a" and
    r: "streamsReducer (Some s) a h = Inr (s1, w, h1)" and
    rest: "applyActions sortednessPrecondition s1 h1 actions = Some (s', h')"
    by (auto split: if_splits sum.splits)
  from strictlyAscending_step [OF Cons.prems(1) pre r] rest show ?case
    by (rule Cons.IH)
qed




end
